theory Spec2Isabelle
  imports Main "HOL-Library.Word"
begin

section \<open>The dsp thread queue of \<open>server/dsp_thread_queue.hpp\<close>\<close>

text \<open>
  The header defines three classes: \<open>dsp_thread_queue_item\<close> (a node of the dependency
  graph), \<open>dsp_thread_queue\<close> (the graph) and \<open>dsp_queue_interpreter\<close> (the scheduler).
  Items are heap objects that the graph, the successor lists and the fifo refer to by
  pointer, so the model has an explicit store from addresses to items.  An \<open>assert\<close>
  that fails ends the program: it is the error \<open>AssertionFailed\<close>.
\<close>

subsection \<open>Data\<close>

type_synonym addr = nat
  \<comment> \<open>a \<open>dsp_thread_queue_item *\<close>\<close>

type_synonym runnable = nat
  \<comment> \<open>the opaque job of a node\<close>

type_synonym activation_limit_t = "16 word"
  \<comment> \<open>\<open>boost::uint_fast16_t\<close>, read at its nominal width of 16 bits\<close>

type_synonym node_count_t = "16 word"

type_synonym thread_count_t = "8 word"
  \<comment> \<open>\<open>boost::uint_fast8_t\<close>; the thread index of \<open>run\<close> is a \<open>boost::uint8_t\<close>\<close>

datatype error = AssertionFailed

record dsp_thread_queue_item =
  activation_count :: activation_limit_t
  job :: runnable
  successors :: "addr list"
  activation_limit :: activation_limit_t

record dsp_thread_queue =
  total_node_count :: node_count_t
  initially_runnable_items :: "addr list"
  queue_items :: "addr list"

record dsp_queue_interpreter =
  queue :: "dsp_thread_queue option"
  thread_count :: thread_count_t
  used_helper_threads :: thread_count_t
  fifo :: "addr list"
  node_count :: node_count_t

text \<open>
  The state that the member functions work on: the store of items, the interpreter
  object, and the record of the job invocations made so far (a job is opaque; what the
  model keeps of \<open>job(thread_index)\<close> is which item's job was invoked with which index).
\<close>

record state =
  heap :: "addr \<Rightarrow> dsp_thread_queue_item"
  interp :: dsp_queue_interpreter
  invoked :: "(addr \<times> thread_count_t) list"

subsection \<open>\<open>dsp_thread_queue_item\<close>\<close>

text \<open>The constructor, lines 83 to 86.\<close>

definition new_dsp_thread_queue_item :: "runnable \<Rightarrow> addr list \<Rightarrow> activation_limit_t \<Rightarrow> dsp_thread_queue_item" where
  "new_dsp_thread_queue_item j succs lim =
     \<lparr>activation_count = 0, job = j, successors = succs, activation_limit = lim\<rparr>"

definition store_count :: "addr \<Rightarrow> activation_limit_t \<Rightarrow> state \<Rightarrow> state" where
  "store_count this v s = s\<lparr>heap := (heap s)(this := (heap s this)\<lparr>activation_count := v\<rparr>)\<rparr>"

definition reset_activation_count :: "addr \<Rightarrow> state \<Rightarrow> error + state" where
  "reset_activation_count this s =
     (if activation_count (heap s this) = 0
      then Inr (store_count this (activation_limit (heap s this)) s)
      else Inl AssertionFailed)"

definition mark_as_runnable :: "addr \<Rightarrow> dsp_queue_interpreter \<Rightarrow> dsp_queue_interpreter" where
  "mark_as_runnable item q = q\<lparr>fifo := fifo q @ [item]\<rparr>"

text \<open>
  \<open>dec_ref_count(interpreter, ptr)\<close>: \<open>activation_count--\<close> yields the previous value and
  stores the predecessor of it; the assertion comes after the decrement.
\<close>

definition dec_ref_count_ptr :: "addr \<Rightarrow> addr option \<Rightarrow> state \<Rightarrow> error + (addr option \<times> state)" where
  "dec_ref_count_ptr this ptr s =
     (let current = activation_count (heap s this);
          s1 = store_count this (current - 1) s
      in if \<not> current > 0 then Inl AssertionFailed
         else if current = 1 then
           (if ptr = None then Inr (Some this, s1)
            else Inr (ptr, s1\<lparr>interp := mark_as_runnable this (interp s1)\<rparr>))
         else Inr (ptr, s1))"

text \<open>\<open>dec_ref_count(interpreter)\<close>.\<close>

definition dec_ref_count :: "addr \<Rightarrow> state \<Rightarrow> error + state" where
  "dec_ref_count this s =
     (let current = activation_count (heap s this);
          s1 = store_count this (current - 1) s
      in if \<not> current > 0 then Inl AssertionFailed
         else if current = 1 then Inr (s1\<lparr>interp := mark_as_runnable this (interp s1)\<rparr>)
         else Inr s1)"

text \<open>
  \<open>update_dependencies\<close> has two loops over the successors: the first runs until a
  successor has been captured in \<open>ptr\<close>, the second takes the successors that are left.
  Both are recursions over the part of the list that is still to visit.
\<close>

fun update_rest :: "addr list \<Rightarrow> state \<Rightarrow> error + state" where
  "update_rest [] s = Inr s"
| "update_rest (x # xs) s =
     (case dec_ref_count x s of
        Inl e \<Rightarrow> Inl e
      | Inr s' \<Rightarrow> update_rest xs s')"

fun update_first :: "addr list \<Rightarrow> state \<Rightarrow> error + (addr option \<times> state)" where
  "update_first [] s = Inr (None, s)"
| "update_first (x # xs) s =
     (case dec_ref_count_ptr x None s of
        Inl e \<Rightarrow> Inl e
      | Inr (ptr, s') \<Rightarrow>
          (case ptr of
             None \<Rightarrow> update_first xs s'
           | Some p \<Rightarrow>
               (case update_rest xs s' of
                  Inl e \<Rightarrow> Inl e
                | Inr s'' \<Rightarrow> Inr (Some p, s''))))"

definition update_dependencies :: "addr \<Rightarrow> state \<Rightarrow> error + (addr option \<times> state)" where
  "update_dependencies this s = update_first (successors (heap s this)) s"

definition run :: "addr \<Rightarrow> thread_count_t \<Rightarrow> state \<Rightarrow> error + (addr option \<times> state)" where
  "run this thread_index s =
     (if activation_count (heap s this) \<noteq> 0 then Inl AssertionFailed
      else
        let s1 = s\<lparr>invoked := invoked s @ [(this, thread_index)]\<rparr>
        in case update_dependencies this s1 of
             Inl e \<Rightarrow> Inl e
           | Inr (next, s2) \<Rightarrow>
               (case reset_activation_count this s2 of
                  Inl e \<Rightarrow> Inl e
                | Inr s3 \<Rightarrow> Inr (next, s3)))"

subsection \<open>\<open>dsp_thread_queue\<close>\<close>

definition new_dsp_thread_queue :: dsp_thread_queue where
  "new_dsp_thread_queue = \<lparr>total_node_count = 0, initially_runnable_items = [], queue_items = []\<rparr>"

definition add_initially_runnable :: "addr \<Rightarrow> dsp_thread_queue \<Rightarrow> dsp_thread_queue" where
  "add_initially_runnable item g =
     g\<lparr>initially_runnable_items := initially_runnable_items g @ [item]\<rparr>"

definition add_queue_item :: "addr \<Rightarrow> dsp_thread_queue \<Rightarrow> error + dsp_thread_queue" where
  "add_queue_item item g =
     (let g' = g\<lparr>queue_items := queue_items g @ [item],
                 total_node_count := total_node_count g + 1\<rparr>
      in if unat (total_node_count g') = length (queue_items g') then Inr g'
         else Inl AssertionFailed)"

fun reset_items :: "addr list \<Rightarrow> state \<Rightarrow> error + state" where
  "reset_items [] s = Inr s"
| "reset_items (x # xs) s =
     (case reset_activation_count x s of
        Inl e \<Rightarrow> Inl e
      | Inr s' \<Rightarrow> reset_items xs s')"

definition reset_activation_counts :: "dsp_thread_queue \<Rightarrow> state \<Rightarrow> error + state" where
  "reset_activation_counts g s =
     (if unat (total_node_count g) = length (queue_items g)
      then reset_items (queue_items g) s
      else Inl AssertionFailed)"

definition get_total_node_count :: "dsp_thread_queue \<Rightarrow> node_count_t" where
  "get_total_node_count g = total_node_count g"

subsection \<open>\<open>dsp_queue_interpreter\<close>\<close>

text \<open>
  \<open>set_thread_count\<close> asserts that its argument is below the maximum of the type and
  clamps it to at least one.
\<close>

definition set_thread_count :: "thread_count_t \<Rightarrow> dsp_queue_interpreter \<Rightarrow> error + dsp_queue_interpreter" where
  "set_thread_count i q =
     (if i < (255 :: thread_count_t) then Inr (q\<lparr>thread_count := max 1 i\<rparr>)
      else Inl AssertionFailed)"

text \<open>
  The constructor initialises \<open>fifo\<close> and \<open>node_count\<close> and sets the thread count; the
  \<open>auto_ptr\<close> starts empty.  The member \<open>used_helper_threads\<close> has no initialiser, so
  the value it starts with is a parameter \<open>u\<close> of the model.
\<close>

definition new_dsp_queue_interpreter :: "thread_count_t \<Rightarrow> thread_count_t \<Rightarrow> error + dsp_queue_interpreter" where
  "new_dsp_queue_interpreter u tc =
     set_thread_count tc
       \<lparr>queue = None, thread_count = 0, used_helper_threads = u, fifo = [], node_count = 0\<rparr>"

definition get_thread_count :: "dsp_queue_interpreter \<Rightarrow> thread_count_t" where
  "get_thread_count q = thread_count q"

definition get_used_helper_threads :: "dsp_queue_interpreter \<Rightarrow> thread_count_t" where
  "get_used_helper_threads q = used_helper_threads q"

definition init_tick :: "dsp_queue_interpreter \<Rightarrow> error + (bool \<times> dsp_queue_interpreter)" where
  "init_tick q =
     (case queue q of
        None \<Rightarrow> Inr (False, q)
      | Some g \<Rightarrow>
          if get_total_node_count g = 0 then Inr (False, q)
          else if node_count q \<noteq> 0 then Inl AssertionFailed
          else if fifo q \<noteq> [] then Inl AssertionFailed
          else Inr (True, foldl (\<lambda>q' item. mark_as_runnable item q')
                            (q\<lparr>node_count := get_total_node_count g\<rparr>)
                            (initially_runnable_items g)))"

definition release_queue :: "dsp_queue_interpreter \<Rightarrow> dsp_thread_queue option \<times> dsp_queue_interpreter" where
  "release_queue q = (queue q, q\<lparr>queue := None\<rparr>)"

text \<open>
  The local \<open>thread_number\<close> of \<open>reset_queue\<close>.
  \<open>std::numeric_limits<thread_count_t>::max()\<close> is 255; it is converted to
  \<open>node_count_t\<close> for the inner \<open>std::min\<close>, whose result is converted back.
\<close>

definition thread_number :: "dsp_thread_queue \<Rightarrow> thread_count_t \<Rightarrow> thread_count_t" where
  "thread_number g tc =
     min (ucast (min (get_total_node_count g) (ucast (255 :: thread_count_t) :: node_count_t)))
         tc"

text \<open>\<open>reset_queue\<close> takes the new graph as an \<open>auto_ptr\<close>, which may be empty (\<open>None\<close>).\<close>

definition reset_queue :: "dsp_thread_queue option \<Rightarrow> state \<Rightarrow> error + (dsp_thread_queue option \<times> state)" where
  "reset_queue new_queue s =
     (let ret = queue (interp s);
          s1 = s\<lparr>interp := (interp s)\<lparr>queue := new_queue\<rparr>\<rparr>
      in case new_queue of
           None \<Rightarrow> Inr (ret, s1)
         | Some g \<Rightarrow>
             (case reset_activation_counts g s1 of
                Inl e \<Rightarrow> Inl e
              | Inr s2 \<Rightarrow>
                  Inr (ret, s2\<lparr>interp := (interp s2)
                         \<lparr>used_helper_threads := thread_number g (thread_count (interp s2)) - 1\<rparr>\<rparr>)))"

text \<open>The anonymous enum of \<open>run_next_item\<close>'s results.\<close>

datatype item_state = no_remaining_items | fifo_empty | remaining_items

text \<open>
  The \<open>do ... while (item != NULL)\<close> loop of \<open>run_next_item\<close>.  Nothing in the code
  bounds the chain (on a cyclic graph it goes on for ever), so the loop is a partial
  function: \<open>None\<close> is the loop that does not end.
\<close>

partial_function (option) run_chain ::
  "addr \<Rightarrow> thread_count_t \<Rightarrow> node_count_t \<Rightarrow> state \<Rightarrow> (error + (node_count_t \<times> state)) option" where
  "run_chain item index consumed s =
     (case run item index s of
        Inl e \<Rightarrow> Some (Inl e)
      | Inr (next, s') \<Rightarrow>
          (case next of
             None \<Rightarrow> Some (Inr (consumed + 1, s'))
           | Some item' \<Rightarrow> run_chain item' index (consumed + 1) s'))"

definition run_next_item :: "thread_count_t \<Rightarrow> state \<Rightarrow> (error + (item_state \<times> state)) option" where
  "run_next_item index s =
     (case fifo (interp s) of
        [] \<Rightarrow> Some (Inr (fifo_empty, s))
      | item # rest \<Rightarrow>
          (case run_chain item index 0 (s\<lparr>interp := (interp s)\<lparr>fifo := rest\<rparr>\<rparr>) of
             None \<Rightarrow> None
           | Some (Inl e) \<Rightarrow> Some (Inl e)
           | Some (Inr (consumed, s1)) \<Rightarrow>
               let remaining = node_count (interp s1);
                   s2 = s1\<lparr>interp := (interp s1)\<lparr>node_count := remaining - consumed\<rparr>\<rparr>
               in if \<not> remaining \<ge> consumed then Some (Inl AssertionFailed)
                  else if remaining = consumed then Some (Inr (no_remaining_items, s2))
                  else Some (Inr (remaining_items, s2))))"

text \<open>
  The \<open>for (;;)\<close> loop of \<open>run_item\<close>: it goes round again after \<open>fifo_empty\<close> and after
  \<open>remaining_items\<close>.
\<close>

partial_function (option) run_item :: "thread_count_t \<Rightarrow> state \<Rightarrow> (error + state) option" where
  "run_item index s =
     (if node_count (interp s) \<noteq> 0 then
        (case run_next_item index s of
           None \<Rightarrow> None
         | Some (Inl e) \<Rightarrow> Some (Inl e)
         | Some (Inr (st, s')) \<Rightarrow>
             if st = no_remaining_items then Some (Inr s') else run_item index s')
      else Some (Inr s))"

definition tick :: "thread_count_t \<Rightarrow> state \<Rightarrow> (error + state) option" where
  "tick thread_index s = run_item thread_index s"

partial_function (option) wait_for_end :: "state \<Rightarrow> state option" where
  "wait_for_end s = (if node_count (interp s) \<noteq> 0 then wait_for_end s else Some s)"

definition run_item_master :: "state \<Rightarrow> (error + state) option" where
  "run_item_master s =
     (case run_item 0 s of
        None \<Rightarrow> None
      | Some (Inl e) \<Rightarrow> Some (Inl e)
      | Some (Inr s1) \<Rightarrow>
          (case wait_for_end s1 of
             None \<Rightarrow> None
           | Some s2 \<Rightarrow> if fifo (interp s2) = [] then Some (Inr s2) else Some (Inl AssertionFailed)))"

definition tick_master :: "state \<Rightarrow> (error + state) option" where
  "tick_master s = run_item_master s"

subsection \<open>A concrete graph\<close>

text \<open>
  The diamond \<open>A \<rightarrow> {B, C} \<rightarrow> D\<close> with the items at the addresses 0 to 3, as the graph
  builder makes it: \<open>diamond_heap a b c d\<close> is the store in which the four activation
  counts are \<open>a\<close>, \<open>b\<close>, \<open>c\<close> and \<open>d\<close>, so \<open>diamond_heap 0 0 0 0\<close> is the store right after
  the four constructor calls.
\<close>

definition diamond_heap ::
  "activation_limit_t \<Rightarrow> activation_limit_t \<Rightarrow> activation_limit_t \<Rightarrow> activation_limit_t
   \<Rightarrow> addr \<Rightarrow> dsp_thread_queue_item" where
  "diamond_heap a b c d =
     (\<lambda>_. new_dsp_thread_queue_item 0 [] 0)
       (0 := (new_dsp_thread_queue_item 0 [1, 2] 0)\<lparr>activation_count := a\<rparr>,
        1 := (new_dsp_thread_queue_item 1 [3] 1)\<lparr>activation_count := b\<rparr>,
        2 := (new_dsp_thread_queue_item 2 [3] 1)\<lparr>activation_count := c\<rparr>,
        3 := (new_dsp_thread_queue_item 3 [] 2)\<lparr>activation_count := d\<rparr>)"

definition diamond :: dsp_thread_queue where
  "diamond = \<lparr>total_node_count = 4, initially_runnable_items = [0], queue_items = [0, 1, 2, 3]\<rparr>"

text \<open>A second graph, of the single item at address 4.\<close>

definition single :: dsp_thread_queue where
  "single = \<lparr>total_node_count = 1, initially_runnable_items = [4], queue_items = [4]\<rparr>"

definition diamond_interp ::
  "dsp_thread_queue option \<Rightarrow> thread_count_t \<Rightarrow> addr list \<Rightarrow> node_count_t \<Rightarrow> dsp_queue_interpreter" where
  "diamond_interp g u f n =
     \<lparr>queue = g, thread_count = 2, used_helper_threads = u, fifo = f, node_count = n\<rparr>"

text \<open>The state after the constructors, before any graph is installed.\<close>

definition fresh_state :: state where
  "fresh_state = \<lparr>heap = diamond_heap 0 0 0 0, interp = diamond_interp None 7 [] 0, invoked = []\<rparr>"

text \<open>The diamond installed, between two ticks.\<close>

definition installed_state :: state where
  "installed_state =
     \<lparr>heap = diamond_heap 0 1 1 2, interp = diamond_interp (Some diamond) 1 [] 0, invoked = []\<rparr>"

text \<open>
  A tick that was abandoned after \<open>A\<close> and \<open>B\<close> had run: \<open>B\<close> is back at its limit, \<open>D\<close> has
  lost one of its two activations.
\<close>

definition torn_state :: state where
  "torn_state =
     \<lparr>heap = diamond_heap 0 1 0 1, interp = diamond_interp None 1 [] 0, invoked = []\<rparr>"

text \<open>The diamond after \<open>init_tick\<close>: \<open>A\<close> is in the fifo and four nodes are to run.\<close>

definition seeded_state :: state where
  "seeded_state =
     \<lparr>heap = diamond_heap 0 1 1 2, interp = diamond_interp (Some diamond) 1 [0] 4, invoked = []\<rparr>"

subsection \<open>Stores that the theorems speak of\<close>

text \<open>The store in which the items of \<open>xs\<close> have their counts at their limits.\<close>

definition reset_heap :: "addr list \<Rightarrow> (addr \<Rightarrow> dsp_thread_queue_item) \<Rightarrow> addr \<Rightarrow> dsp_thread_queue_item" where
  "reset_heap xs h =
     (\<lambda>q. if q \<in> set xs then (h q)\<lparr>activation_count := activation_limit (h q)\<rparr> else h q)"

text \<open>
  The state after the successors \<open>succs\<close> have each lost one activation and the items
  \<open>enq\<close> have been put into the fifo.
\<close>

definition after_update :: "addr list \<Rightarrow> addr list \<Rightarrow> state \<Rightarrow> state" where
  "after_update succs enq s =
     s\<lparr>heap := (\<lambda>q. if q \<in> set succs
                     then (heap s q)\<lparr>activation_count := activation_count (heap s q) - 1\<rparr>
                     else heap s q),
       interp := (interp s)\<lparr>fifo := fifo (interp s) @ enq\<rparr>\<rparr>"

text \<open>The first of a list of items that became ready, if there is one.\<close>

definition first_ready :: "addr list \<Rightarrow> addr option" where
  "first_ready ready = (case ready of [] \<Rightarrow> None | r # _ \<Rightarrow> Some r)"

section \<open>A tick on several threads\<close>

text \<open>
  During a tick the master thread runs \<open>tick_master\<close> and every helper thread runs \<open>tick\<close>
  on the same interpreter.  The threads meet in the atomic counters and in the lock-free
  fifo only, so a tick is an interleaving of steps that each hold one access to shared
  memory: a load, a store or a fetch-and-subtract of an atomic, an \<open>enqueue\<close> or a
  \<open>dequeue\<close> of the fifo, or the invocation of a job.  The control point of a thread
  says which access comes next and carries the locals of the functions it is in.
\<close>

datatype control =
    Loop
    \<comment> \<open>\<open>run_item\<close>, at \<open>node_count.load\<close> (line 322)\<close>
  | Dequeue
    \<comment> \<open>\<open>run_next_item\<close>, at \<open>fifo.dequeue\<close> (line 358)\<close>
  | Run addr node_count_t
    \<comment> \<open>\<open>item->run\<close> (line 367), at its assertion and the job; \<open>item\<close> and \<open>consumed\<close>\<close>
  | Update1 addr node_count_t nat
    \<comment> \<open>first loop of \<open>update_dependencies\<close>; \<open>this\<close>, \<open>consumed\<close> and \<open>i\<close>\<close>
  | Update2 addr node_count_t nat addr
    \<comment> \<open>second loop of \<open>update_dependencies\<close>; \<open>this\<close>, \<open>consumed\<close>, \<open>i\<close> and \<open>ptr\<close>\<close>
  | Enqueue addr node_count_t nat addr addr
    \<comment> \<open>in the second loop, at \<open>mark_as_runnable\<close> (line 154) of the last argument\<close>
  | ResetAssert addr node_count_t "addr option"
    \<comment> \<open>\<open>reset_activation_count\<close> at its assertion; \<open>this\<close>, \<open>consumed\<close> and \<open>next\<close>\<close>
  | ResetStore addr node_count_t "addr option"
    \<comment> \<open>\<open>reset_activation_count\<close> at its store\<close>
  | SubCount node_count_t
    \<comment> \<open>\<open>run_next_item\<close>, at \<open>node_count.fetch_sub\<close> (line 371); \<open>consumed\<close>\<close>
  | WaitEnd
    \<comment> \<open>\<open>wait_for_end\<close>, at \<open>node_count.load\<close> (line 351)\<close>
  | AssertFifo
    \<comment> \<open>\<open>run_item_master\<close>, at its assertion (line 346)\<close>
  | Returned
    \<comment> \<open>back from \<open>tick\<close> or \<open>tick_master\<close>\<close>

text \<open>
  The threads of a tick, by index: thread 0 is the master, the others are helpers.
\<close>

record tick_state =
  mem :: state
  threads :: "control list"

text \<open>Where \<open>run_item\<close> returns to: \<open>run_item_master\<close> goes on to wait, \<open>tick\<close> returns.\<close>

definition run_item_return :: "nat \<Rightarrow> control" where
  "run_item_return t = (if t = 0 then WaitEnd else Returned)"

definition goto :: "nat \<Rightarrow> control \<Rightarrow> state \<Rightarrow> tick_state \<Rightarrow> (error + tick_state) option" where
  "goto t p m c = Some (Inr (c\<lparr>mem := m, threads := (threads c)[t := p]\<rparr>))"

text \<open>
  One step of thread \<open>t\<close>: \<open>None\<close> when the thread has returned (or does not exist),
  an error when an assertion fails, the next state otherwise.
\<close>

definition step :: "nat \<Rightarrow> tick_state \<Rightarrow> (error + tick_state) option" where
  "step t c =
     (if t < length (threads c) then
        let m = mem c in
        case threads c ! t of
          Loop \<Rightarrow>
            if node_count (interp m) \<noteq> 0 then goto t Dequeue m c
            else goto t (run_item_return t) m c
        | Dequeue \<Rightarrow>
            (case fifo (interp m) of
               [] \<Rightarrow> goto t Loop m c
             | item # rest \<Rightarrow> goto t (Run item 0) (m\<lparr>interp := (interp m)\<lparr>fifo := rest\<rparr>\<rparr>) c)
        | Run item consumed \<Rightarrow>
            if activation_count (heap m item) \<noteq> 0 then Some (Inl AssertionFailed)
            else goto t (Update1 item consumed 0)
                   (m\<lparr>invoked := invoked m @ [(item, of_nat t)]\<rparr>) c
        | Update1 this consumed i \<Rightarrow>
            if i = length (successors (heap m this))
            then goto t (ResetAssert this consumed None) m c
            else
              (case dec_ref_count_ptr (successors (heap m this) ! i) None m of
                 Inl e \<Rightarrow> Some (Inl e)
               | Inr (ptr, m') \<Rightarrow>
                   (case ptr of
                      None \<Rightarrow> goto t (Update1 this consumed (i + 1)) m' c
                    | Some p \<Rightarrow> goto t (Update2 this consumed (i + 1) p) m' c))
        | Update2 this consumed i ptr \<Rightarrow>
            if i = length (successors (heap m this))
            then goto t (ResetAssert this consumed (Some ptr)) m c
            else
              let q = successors (heap m this) ! i;
                  current = activation_count (heap m q);
                  m' = store_count q (current - 1) m
              in if \<not> current > 0 then Some (Inl AssertionFailed)
                 else if current = 1 then goto t (Enqueue this consumed (i + 1) ptr q) m' c
                 else goto t (Update2 this consumed (i + 1) ptr) m' c
        | Enqueue this consumed i ptr q \<Rightarrow>
            goto t (Update2 this consumed i ptr) (m\<lparr>interp := mark_as_runnable q (interp m)\<rparr>) c
        | ResetAssert this consumed next \<Rightarrow>
            if activation_count (heap m this) = 0 then goto t (ResetStore this consumed next) m c
            else Some (Inl AssertionFailed)
        | ResetStore this consumed next \<Rightarrow>
            goto t (case next of
                      Some item \<Rightarrow> Run item (consumed + 1)
                    | None \<Rightarrow> SubCount (consumed + 1))
                   (store_count this (activation_limit (heap m this)) m) c
        | SubCount consumed \<Rightarrow>
            let remaining = node_count (interp m);
                m' = m\<lparr>interp := (interp m)\<lparr>node_count := remaining - consumed\<rparr>\<rparr>
            in if \<not> remaining \<ge> consumed then Some (Inl AssertionFailed)
               else if remaining = consumed then goto t (run_item_return t) m' c
               else goto t Loop m' c
        | WaitEnd \<Rightarrow>
            if node_count (interp m) \<noteq> 0 then goto t WaitEnd m c
            else goto t AssertFifo m c
        | AssertFifo \<Rightarrow>
            if fifo (interp m) = [] then goto t Returned m c
            else Some (Inl AssertionFailed)
        | Returned \<Rightarrow> None
      else None)"

text \<open>
  An interleaving is the list of the threads in the order in which they take their
  steps; an entry for a thread that has returned is passed over.
\<close>

fun run_schedule :: "nat list \<Rightarrow> tick_state \<Rightarrow> error + tick_state" where
  "run_schedule [] c = Inr c"
| "run_schedule (t # ts) c =
     (case step t c of
        None \<Rightarrow> run_schedule ts c
      | Some (Inl e) \<Rightarrow> Inl e
      | Some (Inr c') \<Rightarrow> run_schedule ts c')"

text \<open>
  The start of a tick: \<open>init_tick\<close> has returned true, the master is about to enter
  \<open>tick_master\<close> and the \<open>helpers\<close> helper threads are about to enter \<open>tick\<close>.
\<close>

definition start_tick :: "nat \<Rightarrow> state \<Rightarrow> (error + tick_state) option" where
  "start_tick helpers s =
     (case init_tick (interp s) of
        Inl e \<Rightarrow> Some (Inl e)
      | Inr (ok, q) \<Rightarrow>
          if ok then Some (Inr \<lparr>mem = s\<lparr>interp := q\<rparr>, threads = replicate (Suc helpers) Loop\<rparr>)
          else None)"

text \<open>How often the job of the item \<open>p\<close> has been invoked since the log had the length \<open>base\<close>.\<close>

definition invocations :: "nat \<Rightarrow> state \<Rightarrow> addr \<Rightarrow> nat" where
  "invocations base m p = count_list (map fst (drop base (invoked m))) p"

subsection \<open>Well-formed graphs\<close>

text \<open>
  The graph as its builder is to make it: the items of the graph are pairwise distinct
  and counted by \<open>total_node_count\<close>, successors are items of the graph, the activation
  limit of an item is its in-degree (the number of entries in successor lists that
  refer to it), and the initially runnable items are the items with the limit 0, each
  listed once.
\<close>

definition in_degree :: "(addr \<Rightarrow> dsp_thread_queue_item) \<Rightarrow> addr list \<Rightarrow> addr \<Rightarrow> nat" where
  "in_degree h items v = sum_list (map (\<lambda>u. count_list (successors (h u)) v) items)"

definition wf_graph :: "dsp_thread_queue \<Rightarrow> (addr \<Rightarrow> dsp_thread_queue_item) \<Rightarrow> bool" where
  "wf_graph g h \<longleftrightarrow>
     distinct (queue_items g)
     \<and> unat (total_node_count g) = length (queue_items g)
     \<and> (\<forall>u \<in> set (queue_items g). set (successors (h u)) \<subseteq> set (queue_items g))
     \<and> (\<forall>v \<in> set (queue_items g). unat (activation_limit (h v)) = in_degree h (queue_items g) v)
     \<and> distinct (initially_runnable_items g)
     \<and> set (initially_runnable_items g)
         = set (filter (\<lambda>v. activation_limit (h v) = 0) (queue_items g))"

text \<open>
  The interpreter between two ticks: the graph is installed, \<open>node_count\<close> is 0, the
  fifo is empty, and every item of the graph has its count at its limit.
\<close>

definition quiescent :: "dsp_thread_queue \<Rightarrow> state \<Rightarrow> bool" where
  "quiescent g s \<longleftrightarrow>
     queue (interp s) = Some g
     \<and> node_count (interp s) = 0
     \<and> fifo (interp s) = []
     \<and> (\<forall>p \<in> set (queue_items g). activation_count (heap s p) = activation_limit (heap s p))"

subsection \<open>What the threads of a tick hold\<close>

text \<open>
  The invariant of a tick counts, for every item, where it is.  A thread holds an item
  that is ready and has not run yet in its local \<open>item\<close>, \<open>ptr\<close> or \<open>next\<close>, or as the
  argument of a pending \<open>mark_as_runnable\<close>.
\<close>

fun ctl_held :: "control \<Rightarrow> addr list" where
  "ctl_held (Run item consumed) = [item]"
| "ctl_held (Update2 this consumed i ptr) = [ptr]"
| "ctl_held (Enqueue this consumed i ptr q) = [ptr, q]"
| "ctl_held (ResetAssert this consumed next) = (case next of None \<Rightarrow> [] | Some item \<Rightarrow> [item])"
| "ctl_held (ResetStore this consumed next) = (case next of None \<Rightarrow> [] | Some item \<Rightarrow> [item])"
| "ctl_held _ = []"

text \<open>The item whose \<open>run\<close> the thread is in, after the job has been invoked.\<close>

fun ctl_active :: "control \<Rightarrow> addr list" where
  "ctl_active (Update1 this consumed i) = [this]"
| "ctl_active (Update2 this consumed i ptr) = [this]"
| "ctl_active (Enqueue this consumed i ptr q) = [this]"
| "ctl_active (ResetAssert this consumed next) = [this]"
| "ctl_active (ResetStore this consumed next) = [this]"
| "ctl_active _ = []"

text \<open>The successors that the thread has still to decrement.\<close>

fun ctl_rem :: "(addr \<Rightarrow> dsp_thread_queue_item) \<Rightarrow> control \<Rightarrow> addr list" where
  "ctl_rem h (Update1 this consumed i) = drop i (successors (h this))"
| "ctl_rem h (Update2 this consumed i ptr) = drop i (successors (h this))"
| "ctl_rem h (Enqueue this consumed i ptr q) = drop i (successors (h this))"
| "ctl_rem h _ = []"

text \<open>
  The number of items whose job the thread has invoked and which it has not yet
  subtracted from \<open>node_count\<close>.
\<close>

fun ctl_k :: "control \<Rightarrow> nat" where
  "ctl_k (Run item consumed) = unat consumed"
| "ctl_k (Update1 this consumed i) = Suc (unat consumed)"
| "ctl_k (Update2 this consumed i ptr) = Suc (unat consumed)"
| "ctl_k (Enqueue this consumed i ptr q) = Suc (unat consumed)"
| "ctl_k (ResetAssert this consumed next) = Suc (unat consumed)"
| "ctl_k (ResetStore this consumed next) = Suc (unat consumed)"
| "ctl_k (SubCount consumed) = unat consumed"
| "ctl_k _ = 0"

text \<open>The loop index of \<open>update_dependencies\<close> stays within the successor list.\<close>

fun ctl_ok :: "(addr \<Rightarrow> dsp_thread_queue_item) \<Rightarrow> control \<Rightarrow> bool" where
  "ctl_ok h (Update1 this consumed i) = (i \<le> length (successors (h this)))"
| "ctl_ok h (Update2 this consumed i ptr) = (i \<le> length (successors (h this)))"
| "ctl_ok h (Enqueue this consumed i ptr q) = (i \<le> length (successors (h this)))"
| "ctl_ok h _ = True"

text \<open>The thread is out of \<open>run_item\<close>.\<close>

fun left_loop :: "control \<Rightarrow> bool" where
  "left_loop WaitEnd = True"
| "left_loop AssertFifo = True"
| "left_loop Returned = True"
| "left_loop _ = False"

definition tokens :: "state \<Rightarrow> control list \<Rightarrow> addr \<Rightarrow> nat" where
  "tokens m ths v =
     count_list (fifo (interp m)) v + sum_list (map (\<lambda>p. count_list (ctl_held p) v) ths)"

definition running :: "control list \<Rightarrow> addr \<Rightarrow> nat" where
  "running ths v = sum_list (map (\<lambda>p. count_list (ctl_active p) v) ths)"

text \<open>
  The entries of successor lists that refer to \<open>v\<close> and have not been decremented yet:
  those of the items that have not run, and those that the threads have still to visit.
\<close>

definition pending :: "addr list \<Rightarrow> nat \<Rightarrow> state \<Rightarrow> control list \<Rightarrow> addr \<Rightarrow> nat" where
  "pending items base m ths v =
     sum_list (map (\<lambda>u. if invocations base m u = 0
                         then count_list (successors (heap m u)) v else 0) items)
     + sum_list (map (\<lambda>p. count_list (ctl_rem (heap m) p) v) ths)"

definition unaccounted :: "control list \<Rightarrow> nat" where
  "unaccounted ths = sum_list (map ctl_k ths)"

text \<open>
  The invariant of a tick on the graph \<open>g\<close>, for the store and interpreter \<open>m\<close> and the
  threads \<open>ths\<close>, the log of invocations having had the length \<open>base\<close> when the tick began.
  An item is invoked at most once; an item that is held (in the fifo or by a thread)
  has not been invoked and has the count 0; an item in its \<open>run\<close> has been invoked and
  has the count 0; an item that is through its \<open>run\<close> has its count at its limit; the
  count of an item that has not been invoked is the number of pending entries that
  refer to it, and no pending entry refers to an item that has been invoked;
  \<open>node_count\<close> is the number of items not yet invoked plus those invoked and not yet
  subtracted; an item of the graph that has not been invoked and has the count 0 is
  held; and a thread is out of \<open>run_item\<close> only with \<open>node_count\<close> at 0.
\<close>

definition tick_inv :: "dsp_thread_queue \<Rightarrow> nat \<Rightarrow> state \<Rightarrow> control list \<Rightarrow> bool" where
  "tick_inv g base m ths \<longleftrightarrow>
     wf_graph g (heap m)
     \<and> base \<le> length (invoked m)
     \<and> (\<forall>p \<in> set ths. ctl_ok (heap m) p)
     \<and> (\<forall>v. invocations base m v \<le> 1
            \<and> (invocations base m v = 1 \<longrightarrow> v \<in> set (queue_items g)))
     \<and> (\<forall>v. tokens m ths v + invocations base m v \<le> 1
            \<and> (tokens m ths v = 1 \<longrightarrow>
                 v \<in> set (queue_items g) \<and> activation_count (heap m v) = 0))
     \<and> (\<forall>v. running ths v \<le> invocations base m v
            \<and> (running ths v = 1 \<longrightarrow> activation_count (heap m v) = 0))
     \<and> (\<forall>v. invocations base m v = 1 \<and> running ths v = 0 \<longrightarrow>
            activation_count (heap m v) = activation_limit (heap m v))
     \<and> (\<forall>v \<in> set (queue_items g).
            if invocations base m v = 0
            then unat (activation_count (heap m v)) = pending (queue_items g) base m ths v
            else pending (queue_items g) base m ths v = 0)
     \<and> unat (node_count (interp m)) + length (drop base (invoked m))
         = length (queue_items g) + unaccounted ths
     \<and> (\<forall>v \<in> set (queue_items g).
            invocations base m v = 0 \<and> activation_count (heap m v) = 0 \<longrightarrow> tokens m ths v = 1)
     \<and> (\<forall>t < length ths. left_loop (ths ! t) \<longrightarrow> node_count (interp m) = 0)"

text \<open>
  An interleaving of the master and one helper on the diamond in which the helper runs
  \<open>C\<close> while the master runs \<open>A\<close>, \<open>B\<close> and \<open>D\<close>.
\<close>

definition diamond_schedule :: "nat list" where
  "diamond_schedule =
     [0, 0, 0, 0, 0, 1, 1, 1, 0, 0, 1, 1, 1, 1, 1, 0, 0, 0, 1, 1, 1, 1, 1, 1, 1, 1, 1, 1, 1, 1,
      0, 0, 0, 0, 0, 0, 0, 0, 0, 0, 0]"

subsection \<open>Progress of a tick\<close>

text \<open>
  A graph is acyclic when its items can be ranked so that every successor ranks above
  its predecessor.
\<close>

definition topological :: "dsp_thread_queue \<Rightarrow> (addr \<Rightarrow> dsp_thread_queue_item) \<Rightarrow> (addr \<Rightarrow> nat) \<Rightarrow> bool" where
  "topological g h rank \<longleftrightarrow>
     (\<forall>u \<in> set (queue_items g). \<forall>v \<in> set (successors (h u)). rank u < rank v)"

text \<open>
  The steps that are not a turn of a busy-wait: every step but the \<open>node_count.load\<close> of
  \<open>run_item\<close> that finds 0 (it belongs to the end of the tick), the \<open>dequeue\<close> that finds
  the fifo empty, and the steps of a thread that is out of \<open>run_item\<close>.
\<close>

fun productive :: "control \<Rightarrow> state \<Rightarrow> bool" where
  "productive Loop m = (node_count (interp m) \<noteq> 0)"
| "productive Dequeue m = (fifo (interp m) \<noteq> [])"
| "productive WaitEnd m = False"
| "productive AssertFifo m = False"
| "productive Returned m = False"
| "productive _ m = True"

text \<open>
  A bound on the steps that a thread has before it next invokes a job, and the order in
  which a tick makes progress: the number of jobs still to invoke, then that bound
  summed over the threads, an item in the fifo counting for one step.
\<close>

fun ctl_work :: "(addr \<Rightarrow> dsp_thread_queue_item) \<Rightarrow> control \<Rightarrow> nat" where
  "ctl_work h Loop = 6"
| "ctl_work h Dequeue = 5"
| "ctl_work h (Run item consumed) = 4"
| "ctl_work h (Update1 this consumed i) = 10 + 3 * (length (successors (h this)) - i)"
| "ctl_work h (Update2 this consumed i ptr) = 10 + 3 * (length (successors (h this)) - i)"
| "ctl_work h (Enqueue this consumed i ptr q) = 12 + 3 * (length (successors (h this)) - i)"
| "ctl_work h (ResetAssert this consumed next) = 9"
| "ctl_work h (ResetStore this consumed next) = 8"
| "ctl_work h (SubCount consumed) = 7"
| "ctl_work h WaitEnd = 2"
| "ctl_work h AssertFifo = 1"
| "ctl_work h Returned = 0"

definition work :: "state \<Rightarrow> control list \<Rightarrow> nat" where
  "work m ths = sum_list (map (ctl_work (heap m)) ths) + length (fifo (interp m))"

definition tick_less ::
  "dsp_thread_queue \<Rightarrow> nat \<Rightarrow> state \<Rightarrow> control list \<Rightarrow> state \<Rightarrow> control list \<Rightarrow> bool" where
  "tick_less g base m' ths' m ths \<longleftrightarrow>
     ((length (queue_items g) - length (drop base (invoked m')), work m' ths'),
      (length (queue_items g) - length (drop base (invoked m)), work m ths))
       \<in> less_than <*lex*> less_than"

text \<open>
  When \<open>node_count\<close> is 0, a bound on the steps that the master has before it returns
  from \<open>tick_master\<close>.
\<close>

fun end_rank :: "control \<Rightarrow> nat" where
  "end_rank Dequeue = 4"
| "end_rank (SubCount consumed) = 4"
| "end_rank Loop = 3"
| "end_rank WaitEnd = 2"
| "end_rank AssertFifo = 1"
| "end_rank Returned = 0"
| "end_rank _ = 5"

subsection \<open>The master thread alone\<close>

text \<open>
  \<open>at_control p m ths\<close> is the configuration with store \<open>m\<close> in which thread 0 stands at \<open>p\<close>;
  \<open>master_reaches c c'\<close> says that steps of thread 0 alone lead from \<open>c\<close> to \<open>c'\<close>. They relate
  the functions of the first section, which run one thread to its end, to the steps of this
  section.
\<close>

definition at_control :: "control \<Rightarrow> state \<Rightarrow> control list \<Rightarrow> tick_state" where
  "at_control p m ths = \<lparr>mem = m, threads = ths[0 := p]\<rparr>"

definition master_reaches :: "tick_state \<Rightarrow> tick_state \<Rightarrow> bool" where
  "master_reaches c c' \<longleftrightarrow> (\<exists>n. run_schedule (replicate n 0) c = Inr c')"

section \<open>Properties of the sequential operations\<close>

subsection \<open>Auxiliary facts\<close>

lemma heap_store_count:
  "heap (store_count p v s) = (heap s)(p := (heap s p)\<lparr>activation_count := v\<rparr>)"
  by (simp add: store_count_def)

lemma store_count_frame [simp]:
  "interp (store_count p v s) = interp s"
  "invoked (store_count p v s) = invoked s"
  by (simp_all add: store_count_def)

lemma store_count_fields [simp]:
  "activation_count (heap (store_count p v s) q)
     = (if q = p then v else activation_count (heap s q))"
  "activation_limit (heap (store_count p v s) q) = activation_limit (heap s q)"
  "successors (heap (store_count p v s) q) = successors (heap s q)"
  "job (heap (store_count p v s) q) = job (heap s q)"
  by (simp_all add: store_count_def)

lemma foldl_mark_as_runnable:
  "foldl (\<lambda>q' item. mark_as_runnable item q') q xs = q\<lparr>fifo := fifo q @ xs\<rparr>"
  by (induction xs arbitrary: q) (simp_all add: mark_as_runnable_def)

lemma unat_min_word: "unat (min a b) = min (unat a) (unat (b :: 'a::len word))"
  by (simp add: min_def word_le_nat_alt)

lemma unat_thread_number:
  "unat (thread_number g tc) = min (unat tc) (min (unat (total_node_count g)) 255)"
proof -
  define m where "m = min (total_node_count g) (ucast (255 :: thread_count_t) :: node_count_t)"
  have m: "unat m = min (unat (total_node_count g)) 255"
    by (simp add: m_def unat_min_word)
  have "unat (ucast m :: thread_count_t) = unat m mod 256"
    by (simp add: unsigned_ucast_eq take_bit_eq_mod)
  also have "\<dots> = unat m"
    using m by simp
  finally have "unat (min (ucast m) tc) = min (unat tc) (min (unat (total_node_count g)) 255)"
    using m by (simp add: unat_min_word min.commute)
  then show ?thesis
    by (simp add: thread_number_def get_total_node_count_def m_def)
qed

lemma reset_items_ok:
  "distinct xs \<Longrightarrow> \<forall>p \<in> set xs. activation_count (heap s p) = 0 \<Longrightarrow>
   reset_items xs s = Inr (s\<lparr>heap := reset_heap xs (heap s)\<rparr>)"
proof (induction xs arbitrary: s)
  case Nil
  then show ?case by (simp add: reset_heap_def)
next
  case (Cons x xs)
  let ?s' = "store_count x (activation_limit (heap s x)) s"
  have r: "reset_activation_count x s = Inr ?s'"
    using Cons.prems by (simp add: reset_activation_count_def)
  have "reset_items xs ?s' = Inr (?s'\<lparr>heap := reset_heap xs (heap ?s')\<rparr>)"
    using Cons.prems by (intro Cons.IH) auto
  then show ?case using r Cons.prems
    by (auto simp: reset_heap_def fun_eq_iff intro!: state.equality)
qed

lemma reset_items_fail:
  "distinct xs \<Longrightarrow> \<exists>p \<in> set xs. activation_count (heap s p) \<noteq> 0 \<Longrightarrow>
   reset_items xs s = Inl AssertionFailed"
proof (induction xs arbitrary: s)
  case Nil
  then show ?case by simp
next
  case (Cons x xs)
  show ?case
  proof (cases "activation_count (heap s x) = 0")
    case False
    then show ?thesis by (simp add: reset_activation_count_def)
  next
    case True
    let ?s' = "store_count x (activation_limit (heap s x)) s"
    have r: "reset_activation_count x s = Inr ?s'"
      using True by (simp add: reset_activation_count_def)
    have "reset_items xs ?s' = Inl AssertionFailed"
      using Cons.prems True by (intro Cons.IH) auto
    then show ?thesis using r by simp
  qed
qed

lemma reset_activation_counts_eq:
  assumes "unat (total_node_count g) = length (queue_items g)" "distinct (queue_items g)"
  shows "reset_activation_counts g s =
     (if \<forall>p \<in> set (queue_items g). activation_count (heap s p) = 0
      then Inr (s\<lparr>heap := reset_heap (queue_items g) (heap s)\<rparr>)
      else Inl AssertionFailed)"
  using assms by (simp add: reset_activation_counts_def reset_items_ok reset_items_fail)

lemma reset_queue_Some:
  assumes "unat (total_node_count g) = length (queue_items g)" "distinct (queue_items g)"
    "\<forall>p \<in> set (queue_items g). activation_count (heap s p) = 0"
  shows "reset_queue (Some g) s =
     Inr (queue (interp s),
          s\<lparr>heap := reset_heap (queue_items g) (heap s),
            interp := (interp s)\<lparr>queue := Some g,
                         used_helper_threads := thread_number g (thread_count (interp s)) - 1\<rparr>\<rparr>)"
proof -
  let ?s0 = "s\<lparr>interp := (interp s)\<lparr>queue := Some g\<rparr>\<rparr>"
  have "reset_activation_counts g ?s0 = Inr (?s0\<lparr>heap := reset_heap (queue_items g) (heap ?s0)\<rparr>)"
    using assms by (simp add: reset_activation_counts_eq)
  then show ?thesis
    by (simp add: reset_queue_def Let_def)
qed

lemmas example_defs =
  diamond_heap_def diamond_def single_def diamond_interp_def fresh_state_def installed_state_def
  torn_state_def seeded_state_def new_dsp_thread_queue_item_def

lemmas eval_defs =
  run_def update_dependencies_def dec_ref_count_ptr_def dec_ref_count_def
  reset_activation_count_def store_count_def mark_as_runnable_def Let_def

subsection \<open>The constructor and \<open>reset_activation_count\<close>\<close>

text \<open>
  C2, as the code has it: the constructor of \<open>dsp_thread_queue_item\<close> initialises
  \<open>activation_count\<close> to 0 and stores its arguments in \<open>job\<close>, \<open>successors\<close> and
  \<open>activation_limit\<close>; the count takes the value of the limit only with the
  \<open>reset_activation_count\<close> that follows, whose assertion the zero satisfies.
\<close>

theorem item_constructor_count_zero:
  "activation_count (new_dsp_thread_queue_item j succs lim) = 0
   \<and> job (new_dsp_thread_queue_item j succs lim) = j
   \<and> successors (new_dsp_thread_queue_item j succs lim) = succs
   \<and> activation_limit (new_dsp_thread_queue_item j succs lim) = lim
   \<and> reset_activation_count p (s\<lparr>heap := (heap s)(p := new_dsp_thread_queue_item j succs lim)\<rparr>)
       = Inr (s\<lparr>heap := (heap s)(p := (new_dsp_thread_queue_item j succs lim)\<lparr>activation_count := lim\<rparr>)\<rparr>)"
  by (simp add: new_dsp_thread_queue_item_def reset_activation_count_def store_count_def)

text \<open>
  C2 as stated fails: an item constructed with the limit 1 has the count 0, not 1.
\<close>

theorem item_constructor_counterexample:
  "activation_count (new_dsp_thread_queue_item 3 [] 1)
   \<noteq> activation_limit (new_dsp_thread_queue_item 3 [] 1)"
  by (simp add: new_dsp_thread_queue_item_def)

text \<open>
  C3, as the code has it: \<open>reset_activation_count\<close> stores \<open>activation_limit\<close> into
  \<open>activation_count\<close> exactly when the count is 0 and changes nothing else; on an item
  whose count is not 0 its assertion fails.  So \<open>reset_activation_counts\<close>, which
  \<open>reset_queue\<close> calls at install time, goes through on a graph whose items all have
  the count 0 (as the constructor leaves them) and fails on a graph with an item whose
  count is not 0.
\<close>

theorem reset_activation_count_asserts_zero:
  "(activation_count (heap s p) = 0 \<longrightarrow>
      reset_activation_count p s
        = Inr (s\<lparr>heap := (heap s)(p := (heap s p)\<lparr>activation_count := activation_limit (heap s p)\<rparr>)\<rparr>))
   \<and> (activation_count (heap s p) \<noteq> 0 \<longrightarrow> reset_activation_count p s = Inl AssertionFailed)
   \<and> (unat (total_node_count g) = length (queue_items g) \<and> distinct (queue_items g) \<longrightarrow>
        reset_activation_counts g s =
          (if \<forall>p \<in> set (queue_items g). activation_count (heap s p) = 0
           then Inr (s\<lparr>heap := reset_heap (queue_items g) (heap s)\<rparr>)
           else Inl AssertionFailed))"
  by (simp add: reset_activation_count_def store_count_def reset_activation_counts_eq)

theorem reset_activation_count_asserts_zero_witness:
  "activation_count (heap fresh_state 3) = 0
   \<and> reset_activation_count 3 fresh_state = Inr (fresh_state\<lparr>heap := diamond_heap 0 0 0 2\<rparr>)
   \<and> activation_count (heap torn_state 1) \<noteq> 0
   \<and> reset_activation_count 1 torn_state = Inl AssertionFailed
   \<and> unat (total_node_count diamond) = length (queue_items diamond) \<and> distinct (queue_items diamond)
   \<and> reset_activation_counts diamond fresh_state = Inr (fresh_state\<lparr>heap := diamond_heap 0 1 1 2\<rparr>)
   \<and> reset_activation_counts diamond torn_state = Inl AssertionFailed"
proof -
  have z: "activation_count (heap fresh_state 3) = 0" and nz: "activation_count (heap torn_state 1) \<noteq> 0"
    and g: "unat (total_node_count diamond) = length (queue_items diamond) \<and> distinct (queue_items diamond)"
    by (simp_all add: example_defs)
  have h1: "(heap fresh_state)(3 := (heap fresh_state 3)\<lparr>activation_count := activation_limit (heap fresh_state 3)\<rparr>)
            = diamond_heap 0 0 0 2"
    by (simp add: example_defs fun_eq_iff)
  have h2: "reset_heap (queue_items diamond) (heap fresh_state) = diamond_heap 0 1 1 2"
    by (simp add: example_defs reset_heap_def fun_eq_iff)
  have a1: "\<forall>p \<in> set (queue_items diamond). activation_count (heap fresh_state p) = 0"
    and a2: "\<not> (\<forall>p \<in> set (queue_items diamond). activation_count (heap torn_state p) = 0)"
    by (simp_all add: example_defs)
  from reset_activation_count_asserts_zero [of fresh_state 3 diamond] z g h1 h2 a1
  have "reset_activation_count 3 fresh_state = Inr (fresh_state\<lparr>heap := diamond_heap 0 0 0 2\<rparr>)"
    and "reset_activation_counts diamond fresh_state = Inr (fresh_state\<lparr>heap := diamond_heap 0 1 1 2\<rparr>)"
    by simp_all
  moreover from reset_activation_count_asserts_zero [of torn_state 1 diamond] nz g a2
  have "reset_activation_count 1 torn_state = Inl AssertionFailed"
    and "reset_activation_counts diamond torn_state = Inl AssertionFailed"
    by simp_all
  ultimately show ?thesis using z nz g by simp
qed

text \<open>
  C3 as stated fails: on the diamond left by an abandoned tick, \<open>B\<close> and \<open>D\<close> have counts
  other than 0, the assertion of \<open>reset_activation_count\<close> fails on them, and so does the
  install of the graph.
\<close>

theorem reset_mid_state_counterexample:
  "activation_count (heap torn_state 3) \<noteq> 0
   \<and> reset_activation_count 3 torn_state = Inl AssertionFailed
   \<and> reset_queue (Some diamond) torn_state = Inl AssertionFailed"
  by (simp add: example_defs reset_queue_def reset_activation_counts_def reset_activation_count_def
        store_count_def)

subsection \<open>\<open>run\<close> and \<open>update_dependencies\<close>\<close>

lemma dec_ref_count_eq:
  "dec_ref_count q s =
     (if activation_count (heap s q) = 0 then Inl AssertionFailed
      else Inr ((store_count q (activation_count (heap s q) - 1) s)
                  \<lparr>interp := (interp s)\<lparr>fifo := fifo (interp s)
                       @ (if activation_count (heap s q) = 1 then [q] else [])\<rparr>\<rparr>))"
  by (simp add: dec_ref_count_def Let_def word_greater_zero_iff mark_as_runnable_def)

lemma dec_ref_count_ptr_eq:
  "dec_ref_count_ptr q None s =
     (if activation_count (heap s q) = 0 then Inl AssertionFailed
      else Inr (if activation_count (heap s q) = 1 then Some q else None,
                store_count q (activation_count (heap s q) - 1) s))"
  by (simp add: dec_ref_count_ptr_def Let_def word_greater_zero_iff)

lemma update_rest_ok:
  "distinct xs \<Longrightarrow> \<forall>q \<in> set xs. activation_count (heap s q) \<noteq> 0 \<Longrightarrow>
   update_rest xs s = Inr (after_update xs (filter (\<lambda>q. activation_count (heap s q) = 1) xs) s)"
proof (induction xs arbitrary: s)
  case Nil
  then show ?case by (simp add: after_update_def)
next
  case (Cons x xs)
  let ?s' = "(store_count x (activation_count (heap s x) - 1) s)
                  \<lparr>interp := (interp s)\<lparr>fifo := fifo (interp s)
                       @ (if activation_count (heap s x) = 1 then [x] else [])\<rparr>\<rparr>"
  have d: "dec_ref_count x s = Inr ?s'"
    using Cons.prems by (simp add: dec_ref_count_eq)
  have f: "filter (\<lambda>q. activation_count (heap ?s' q) = 1) xs
           = filter (\<lambda>q. activation_count (heap s q) = 1) xs"
    using Cons.prems by (intro filter_cong) auto
  have "update_rest xs ?s'
        = Inr (after_update xs (filter (\<lambda>q. activation_count (heap ?s' q) = 1) xs) ?s')"
    using Cons.prems by (intro Cons.IH) auto
  then show ?case using d f Cons.prems
    by (auto simp: after_update_def fun_eq_iff intro!: state.equality)
qed

lemma update_rest_fail:
  "distinct xs \<Longrightarrow> \<exists>q \<in> set xs. activation_count (heap s q) = 0 \<Longrightarrow>
   update_rest xs s = Inl AssertionFailed"
proof (induction xs arbitrary: s)
  case Nil
  then show ?case by simp
next
  case (Cons x xs)
  show ?case
  proof (cases "activation_count (heap s x) = 0")
    case True
    then show ?thesis by (simp add: dec_ref_count_eq)
  next
    case False
    let ?s' = "(store_count x (activation_count (heap s x) - 1) s)
                  \<lparr>interp := (interp s)\<lparr>fifo := fifo (interp s)
                       @ (if activation_count (heap s x) = 1 then [x] else [])\<rparr>\<rparr>"
    have d: "dec_ref_count x s = Inr ?s'"
      using False by (simp add: dec_ref_count_eq)
    have "update_rest xs ?s' = Inl AssertionFailed"
      using Cons.prems False by (intro Cons.IH) auto
    then show ?thesis using d by simp
  qed
qed

lemma update_first_ok:
  "distinct xs \<Longrightarrow> \<forall>q \<in> set xs. activation_count (heap s q) \<noteq> 0 \<Longrightarrow>
   update_first xs s =
     Inr (first_ready (filter (\<lambda>q. activation_count (heap s q) = 1) xs),
          after_update xs (tl (filter (\<lambda>q. activation_count (heap s q) = 1) xs)) s)"
proof (induction xs arbitrary: s)
  case Nil
  then show ?case by (simp add: after_update_def first_ready_def)
next
  case (Cons x xs)
  let ?s' = "store_count x (activation_count (heap s x) - 1) s"
  have d: "dec_ref_count_ptr x None s
           = Inr (if activation_count (heap s x) = 1 then Some x else None, ?s')"
    using Cons.prems by (simp add: dec_ref_count_ptr_eq)
  have f: "filter (\<lambda>q. activation_count (heap ?s' q) = 1) xs
           = filter (\<lambda>q. activation_count (heap s q) = 1) xs"
    using Cons.prems by (intro filter_cong) auto
  have nz: "\<forall>q \<in> set xs. activation_count (heap ?s' q) \<noteq> 0"
    using Cons.prems by auto
  show ?case
  proof (cases "activation_count (heap s x) = 1")
    case True
    have "update_rest xs ?s'
          = Inr (after_update xs (filter (\<lambda>q. activation_count (heap ?s' q) = 1) xs) ?s')"
      using Cons.prems nz by (intro update_rest_ok) auto
    then show ?thesis using d f True Cons.prems
      by (auto simp: after_update_def first_ready_def fun_eq_iff intro!: state.equality)
  next
    case False
    have "update_first xs ?s'
          = Inr (first_ready (filter (\<lambda>q. activation_count (heap ?s' q) = 1) xs),
                 after_update xs (tl (filter (\<lambda>q. activation_count (heap ?s' q) = 1) xs)) ?s')"
      using Cons.prems nz by (intro Cons.IH) auto
    then show ?thesis using d f False Cons.prems
      by (auto simp: after_update_def fun_eq_iff intro!: state.equality)
  qed
qed

lemma update_first_fail:
  "distinct xs \<Longrightarrow> \<exists>q \<in> set xs. activation_count (heap s q) = 0 \<Longrightarrow>
   update_first xs s = Inl AssertionFailed"
proof (induction xs arbitrary: s)
  case Nil
  then show ?case by simp
next
  case (Cons x xs)
  show ?case
  proof (cases "activation_count (heap s x) = 0")
    case True
    then show ?thesis by (simp add: dec_ref_count_ptr_eq)
  next
    case False
    let ?s' = "store_count x (activation_count (heap s x) - 1) s"
    have d: "dec_ref_count_ptr x None s
             = Inr (if activation_count (heap s x) = 1 then Some x else None, ?s')"
      using False by (simp add: dec_ref_count_ptr_eq)
    have ex: "\<exists>q \<in> set xs. activation_count (heap ?s' q) = 0"
      using Cons.prems False by auto
    have "update_first xs ?s' = Inl AssertionFailed"
      using Cons.prems ex by (intro Cons.IH) auto
    moreover have "update_rest xs ?s' = Inl AssertionFailed"
      using Cons.prems ex by (intro update_rest_fail) auto
    ultimately show ?thesis
      by (cases "activation_count (heap s x) = 1") (auto simp: d)
  qed
qed

text \<open>
  C4: let the successors of the item \<open>this\<close> be pairwise distinct.  \<open>run\<close> returns exactly
  when the count of \<open>this\<close> is 0 and no successor has the count 0 (the assertions of
  \<open>run\<close> and of \<open>dec_ref_count\<close>).  Then the job has been invoked once, every successor
  has lost one activation and nothing else in the store has changed but the count of
  \<open>this\<close>; with \<open>ready\<close> the successors whose count went from 1 to 0, in the order of
  the successor list, \<open>run\<close> returns the first of \<open>ready\<close> (none when \<open>ready\<close> is empty)
  and the fifo has received the others, in that order.
\<close>

theorem run_updates_successors:
  assumes "distinct (successors (heap s this))"
  shows "run this thread_index s =
    (if activation_count (heap s this) = 0
        \<and> (\<forall>q \<in> set (successors (heap s this)). activation_count (heap s q) \<noteq> 0)
     then
       let ready = filter (\<lambda>q. activation_count (heap s q) = 1) (successors (heap s this))
       in Inr (case ready of [] \<Rightarrow> None | r # _ \<Rightarrow> Some r,
               s\<lparr>heap := (\<lambda>q. if q = this
                                then (heap s q)\<lparr>activation_count := activation_limit (heap s q)\<rparr>
                              else if q \<in> set (successors (heap s this))
                                then (heap s q)\<lparr>activation_count := activation_count (heap s q) - 1\<rparr>
                              else heap s q),
                 interp := (interp s)\<lparr>fifo := fifo (interp s) @ tl ready\<rparr>,
                 invoked := invoked s @ [(this, thread_index)]\<rparr>)
     else Inl AssertionFailed)"
proof (cases "activation_count (heap s this) = 0")
  case False
  then show ?thesis by (simp add: run_def)
next
  case z: True
  let ?s1 = "s\<lparr>invoked := invoked s @ [(this, thread_index)]\<rparr>"
  let ?xs = "successors (heap s this)"
  show ?thesis
  proof (cases "\<forall>q \<in> set ?xs. activation_count (heap s q) \<noteq> 0")
    case False
    then have "update_first ?xs ?s1 = Inl AssertionFailed"
      using assms by (intro update_first_fail) auto
    then show ?thesis by (simp add: run_def update_dependencies_def False z)
  next
    case True
    then have nin: "this \<notin> set ?xs" using z by auto
    have "update_first ?xs ?s1 =
     Inr (first_ready (filter (\<lambda>q. activation_count (heap ?s1 q) = 1) ?xs),
          after_update ?xs (tl (filter (\<lambda>q. activation_count (heap ?s1 q) = 1) ?xs)) ?s1)"
      using assms True by (intro update_first_ok) auto
    then show ?thesis using True z nin
      by (auto simp: run_def update_dependencies_def reset_activation_count_def after_update_def
                first_ready_def Let_def store_count_def fun_eq_iff intro!: state.equality)
  qed
qed

theorem run_updates_successors_witness:
  "distinct (successors (heap installed_state 0))
   \<and> run 0 0 installed_state =
       Inr (Some 1, \<lparr>heap = diamond_heap 0 0 0 2,
                     interp = diamond_interp (Some diamond) 1 [2] 0,
                     invoked = [(0, 0)]\<rparr>)"
proof -
  have d: "distinct (successors (heap installed_state 0))"
    by (simp add: example_defs)
  have "run 0 0 installed_state =
       Inr (Some 1, \<lparr>heap = diamond_heap 0 0 0 2,
                     interp = diamond_interp (Some diamond) 1 [2] 0,
                     invoked = [(0, 0)]\<rparr>)"
    unfolding run_updates_successors [OF d]
    by (simp add: example_defs fun_eq_iff)
  with d show ?thesis by simp
qed

text \<open>
  C5: when \<open>run\<close> returns, the count of the item that ran equals its limit (which \<open>run\<close>
  has not changed).
\<close>

lemma dec_ref_count_limit:
  "dec_ref_count q s = Inr s' \<Longrightarrow> activation_limit (heap s' p) = activation_limit (heap s p)"
  by (auto simp: dec_ref_count_eq split: if_splits)

lemma update_rest_limit:
  "update_rest xs s = Inr s' \<Longrightarrow> activation_limit (heap s' p) = activation_limit (heap s p)"
  by (induction xs arbitrary: s) (auto split: sum.splits dest: dec_ref_count_limit)

lemma dec_ref_count_ptr_limit:
  "dec_ref_count_ptr q None s = Inr (ptr, s') \<Longrightarrow>
   activation_limit (heap s' p) = activation_limit (heap s p)"
  by (auto simp: dec_ref_count_ptr_eq split: if_splits)

lemma update_first_limit:
  "update_first xs s = Inr (ptr, s') \<Longrightarrow> activation_limit (heap s' p) = activation_limit (heap s p)"
proof (induction xs arbitrary: s)
  case Nil
  then show ?case by simp
next
  case (Cons x xs)
  then show ?case
    by (auto split: sum.splits option.splits
             dest!: dec_ref_count_ptr_limit [where p = p] update_rest_limit [where p = p])
qed

theorem run_resets_own_count:
  assumes "run this thread_index s = Inr (next, s')"
  shows "activation_count (heap s' this) = activation_limit (heap s' this)
         \<and> activation_limit (heap s' this) = activation_limit (heap s this)"
proof -
  from assms obtain s2 where u: "update_first (successors (heap s this))
        (s\<lparr>invoked := invoked s @ [(this, thread_index)]\<rparr>) = Inr (next, s2)"
    and r: "reset_activation_count this s2 = Inr s'"
    by (auto simp: run_def Let_def update_dependencies_def split: if_splits sum.splits)
  from r have s': "s' = store_count this (activation_limit (heap s2 this)) s2"
    by (auto simp: reset_activation_count_def split: if_splits)
  from update_first_limit [OF u, of this] have "activation_limit (heap s2 this) = activation_limit (heap s this)"
    by simp
  with s' show ?thesis by simp
qed

theorem run_resets_own_count_witness:
  "run 1 0 (seeded_state\<lparr>heap := diamond_heap 0 0 0 2\<rparr>)
     = Inr (None, seeded_state\<lparr>heap := diamond_heap 0 1 0 1, invoked := [(1, 0)]\<rparr>)
   \<and> activation_count (heap (seeded_state\<lparr>heap := diamond_heap 0 1 0 1, invoked := [(1, 0)]\<rparr>) 1)
      = activation_limit (heap (seeded_state\<lparr>heap := diamond_heap 0 1 0 1, invoked := [(1, 0)]\<rparr>) 1)"
proof -
  have r: "run 1 0 (seeded_state\<lparr>heap := diamond_heap 0 0 0 2\<rparr>)
     = Inr (None, seeded_state\<lparr>heap := diamond_heap 0 1 0 1, invoked := [(1, 0)]\<rparr>)"
    by (simp add: example_defs eval_defs fun_eq_iff)
  from run_resets_own_count [OF r] r show ?thesis by simp
qed

subsection \<open>\<open>init_tick\<close>, \<open>reset_queue\<close> and \<open>release_queue\<close>\<close>

text \<open>
  C6: \<open>init_tick\<close> returns false if and only if no graph is installed or the installed
  graph has no nodes, and then the interpreter is unchanged.  Otherwise, the interpreter
  being quiescent as \<open>init_tick\<close> asserts (\<open>node_count\<close> is 0, the fifo is empty), it
  returns true, \<open>node_count\<close> holds the total node count of the graph and the fifo holds
  the initially runnable items in the order of the graph's list.
\<close>

theorem init_tick_result:
  "((\<exists>q'. init_tick q = Inr (False, q'))
      \<longleftrightarrow> (queue q = None \<or> (\<exists>g. queue q = Some g \<and> get_total_node_count g = 0)))
   \<and> (\<forall>q'. init_tick q = Inr (False, q') \<longrightarrow> q' = q)
   \<and> (\<forall>g. queue q = Some g \<and> get_total_node_count g \<noteq> 0 \<and> node_count q = 0 \<and> fifo q = [] \<longrightarrow>
         init_tick q = Inr (True, q\<lparr>fifo := initially_runnable_items g,
                                    node_count := get_total_node_count g\<rparr>))
   \<and> (\<forall>b q'. init_tick q = Inr (b, q') \<longrightarrow>
         queue q' = queue q \<and> thread_count q' = thread_count q
         \<and> used_helper_threads q' = used_helper_threads q)"
  by (auto simp: init_tick_def foldl_mark_as_runnable split: option.splits if_splits)

theorem init_tick_result_witness:
  "init_tick (interp fresh_state) = Inr (False, interp fresh_state)
   \<and> queue (interp installed_state) = Some diamond \<and> get_total_node_count diamond \<noteq> 0
   \<and> node_count (interp installed_state) = 0 \<and> fifo (interp installed_state) = []
   \<and> init_tick (interp installed_state) = Inr (True, interp seeded_state)"
proof -
  have n: "queue (interp fresh_state) = None"
    and h: "queue (interp installed_state) = Some diamond \<and> get_total_node_count diamond \<noteq> 0
      \<and> node_count (interp installed_state) = 0 \<and> fifo (interp installed_state) = []"
    and e: "(interp installed_state)\<lparr>fifo := initially_runnable_items diamond,
               node_count := get_total_node_count diamond\<rparr> = interp seeded_state"
    by (simp_all add: example_defs get_total_node_count_def)
  from init_tick_result [of "interp fresh_state"] n
  obtain q' where "init_tick (interp fresh_state) = Inr (False, q')" "q' = interp fresh_state"
    by blast
  moreover from init_tick_result [of "interp installed_state"] h e
  have "init_tick (interp installed_state) = Inr (True, interp seeded_state)"
    by metis
  ultimately show ?thesis using h by simp
qed

text \<open>
  C7: let \<open>g\<close> be a graph whose node count matches its item list, whose items are pairwise
  distinct and all have the count 0, so that the assertions of \<open>reset_activation_counts\<close>
  hold.  Then \<open>reset_queue\<close> of \<open>g\<close> returns the graph that was installed before (possibly
  none), installs \<open>g\<close>, has called \<open>reset_activation_counts\<close> on it (every item of \<open>g\<close> has
  its count at its limit), and \<open>used_helper_threads\<close> is \<open>n - 1\<close> in \<open>thread_count_t\<close>, where
  \<open>n\<close> is the minimum of \<open>thread_count\<close>, the total node count and 255; when the thread
  count and the node count are not 0, \<open>n\<close> is at least 1 and the subtraction does not wrap.
\<close>

theorem reset_queue_installs:
  assumes "unat (total_node_count g) = length (queue_items g)" "distinct (queue_items g)"
    "\<forall>p \<in> set (queue_items g). activation_count (heap s p) = 0"
  shows "reset_activation_counts g (s\<lparr>interp := (interp s)\<lparr>queue := Some g\<rparr>\<rparr>)
       = Inr (s\<lparr>heap := reset_heap (queue_items g) (heap s),
                interp := (interp s)\<lparr>queue := Some g\<rparr>\<rparr>)
     \<and> reset_queue (Some g) s
       = Inr (queue (interp s),
              s\<lparr>heap := reset_heap (queue_items g) (heap s),
                interp := (interp s)\<lparr>queue := Some g,
                  used_helper_threads := thread_number g (thread_count (interp s)) - 1\<rparr>\<rparr>)
     \<and> unat (thread_number g (thread_count (interp s)))
       = min (unat (thread_count (interp s))) (min (unat (get_total_node_count g)) 255)
     \<and> (thread_count (interp s) \<noteq> 0 \<and> get_total_node_count g \<noteq> 0 \<longrightarrow>
          unat (thread_number g (thread_count (interp s)) - 1) + 1
            = min (unat (thread_count (interp s))) (min (unat (get_total_node_count g)) 255))"
proof -
  let ?n = "thread_number g (thread_count (interp s))"
  have r: "reset_activation_counts g (s\<lparr>interp := (interp s)\<lparr>queue := Some g\<rparr>\<rparr>)
       = Inr (s\<lparr>heap := reset_heap (queue_items g) (heap s),
                interp := (interp s)\<lparr>queue := Some g\<rparr>\<rparr>)"
    using assms by (simp add: reset_activation_counts_eq)
  have n: "unat ?n = min (unat (thread_count (interp s))) (min (unat (get_total_node_count g)) 255)"
    by (simp add: unat_thread_number get_total_node_count_def)
  have i: "unat (?n - 1) + 1
            = min (unat (thread_count (interp s))) (min (unat (get_total_node_count g)) 255)"
    if "thread_count (interp s) \<noteq> 0" "get_total_node_count g \<noteq> 0"
  proof -
    from that have "0 < unat (thread_count (interp s))" "0 < unat (get_total_node_count g)"
      by (simp_all add: unat_gt_0)
    then have pos: "0 < unat ?n"
      unfolding n by simp
    then have "?n \<noteq> 0" by (simp add: unat_gt_0)
    then have "unat (?n - 1) = unat ?n - 1" by (rule unat_minus_one)
    with pos have "unat (?n - 1) + 1 = unat ?n" by simp
    then show ?thesis unfolding n by simp
  qed
  from r n i reset_queue_Some [OF assms] show ?thesis by simp
qed

theorem reset_queue_installs_witness:
  "unat (total_node_count diamond) = length (queue_items diamond)
   \<and> distinct (queue_items diamond)
   \<and> list_all (\<lambda>p. activation_count (heap fresh_state p) = 0) (queue_items diamond)
   \<and> reset_queue (Some diamond) fresh_state = Inr (None, installed_state)
   \<and> get_used_helper_threads (interp installed_state) = 1"
proof -
  have a: "unat (total_node_count diamond) = length (queue_items diamond)"
    and b: "distinct (queue_items diamond)"
    and c: "\<forall>p \<in> set (queue_items diamond). activation_count (heap fresh_state p) = 0"
    by (simp_all add: example_defs)
  have e: "fresh_state\<lparr>heap := reset_heap (queue_items diamond) (heap fresh_state),
             interp := (interp fresh_state)\<lparr>queue := Some diamond,
               used_helper_threads := thread_number diamond (thread_count (interp fresh_state)) - 1\<rparr>\<rparr>
           = installed_state"
    by (simp add: example_defs reset_heap_def thread_number_def get_total_node_count_def fun_eq_iff)
  have q: "queue (interp fresh_state) = None"
    by (simp add: example_defs)
  from reset_queue_installs [OF a b c]
  have "reset_queue (Some diamond) fresh_state = Inr (None, installed_state)"
    unfolding e q by simp
  then show ?thesis using a b c
    by (simp add: list_all_iff get_used_helper_threads_def) (simp add: example_defs)
qed

text \<open>
  C9: start from an interpreter without a graph.  Let \<open>A\<close> and \<open>B\<close> be graphs whose node
  counts match their item lists and whose items are pairwise distinct, also between the
  two graphs, and have the count 0.  Then installing \<open>A\<close> returns no graph, installing \<open>B\<close>
  returns \<open>A\<close>, releasing returns \<open>B\<close>, and afterwards the interpreter has no graph, and
  its fifo and its \<open>node_count\<close> are what they were before the first install (empty and
  0 when they were so).
\<close>

theorem install_install_release:
  assumes "queue (interp s) = None"
    and "unat (total_node_count A) = length (queue_items A)"
    and "unat (total_node_count B) = length (queue_items B)"
    and "distinct (queue_items A @ queue_items B)"
    and "\<forall>p \<in> set (queue_items A @ queue_items B). activation_count (heap s p) = 0"
  shows "\<exists>s1 s2 q3.
       reset_queue (Some A) s = Inr (None, s1)
     \<and> reset_queue (Some B) s1 = Inr (Some A, s2)
     \<and> release_queue (interp s2) = (Some B, q3)
     \<and> queue q3 = queue (interp s) \<and> fifo q3 = fifo (interp s)
     \<and> node_count q3 = node_count (interp s)
     \<and> (fifo (interp s) = [] \<and> node_count (interp s) = 0 \<longrightarrow>
          queue q3 = None \<and> fifo q3 = [] \<and> node_count q3 = 0)"
proof -
  let ?s1 = "s\<lparr>heap := reset_heap (queue_items A) (heap s),
               interp := (interp s)\<lparr>queue := Some A,
                 used_helper_threads := thread_number A (thread_count (interp s)) - 1\<rparr>\<rparr>"
  let ?s2 = "?s1\<lparr>heap := reset_heap (queue_items B) (heap ?s1),
               interp := (interp ?s1)\<lparr>queue := Some B,
                 used_helper_threads := thread_number B (thread_count (interp ?s1)) - 1\<rparr>\<rparr>"
  have a: "reset_queue (Some A) s = Inr (None, ?s1)"
    using assms by (simp add: reset_queue_Some)
  have "\<forall>p \<in> set (queue_items B). activation_count (heap ?s1 p) = 0"
    using assms by (auto simp: reset_heap_def)
  then have b: "reset_queue (Some B) ?s1 = Inr (Some A, ?s2)"
    using assms by (subst reset_queue_Some) simp_all
  have c: "release_queue (interp ?s2) = (Some B, (interp ?s2)\<lparr>queue := None\<rparr>)"
    by (simp add: release_queue_def)
  show ?thesis
    apply (rule exI [of _ ?s1])
    apply (rule exI [of _ ?s2])
    apply (rule exI [of _ "(interp ?s2)\<lparr>queue := None\<rparr>"])
    using a b c assms(1) by simp
qed

theorem install_install_release_witness:
  "queue (interp fresh_state) = None
   \<and> unat (total_node_count diamond) = length (queue_items diamond)
   \<and> unat (total_node_count single) = length (queue_items single)
   \<and> distinct (queue_items diamond @ queue_items single)
   \<and> list_all (\<lambda>p. activation_count (heap fresh_state p) = 0) (queue_items diamond @ queue_items single)
   \<and> (\<exists>s1 s2 q3.
         reset_queue (Some diamond) fresh_state = Inr (None, s1)
       \<and> reset_queue (Some single) s1 = Inr (Some diamond, s2)
       \<and> release_queue (interp s2) = (Some single, q3)
       \<and> queue q3 = None \<and> fifo q3 = [] \<and> node_count q3 = 0)"
proof -
  have h: "queue (interp fresh_state) = None"
    "unat (total_node_count diamond) = length (queue_items diamond)"
    "unat (total_node_count single) = length (queue_items single)"
    "distinct (queue_items diamond @ queue_items single)"
    "\<forall>p \<in> set (queue_items diamond @ queue_items single). activation_count (heap fresh_state p) = 0"
    by (simp_all add: example_defs)
  have e: "fifo (interp fresh_state) = [] \<and> node_count (interp fresh_state) = 0"
    by (simp add: example_defs)
  from install_install_release [OF h] e
  have "\<exists>s1 s2 q3.
         reset_queue (Some diamond) fresh_state = Inr (None, s1)
       \<and> reset_queue (Some single) s1 = Inr (Some diamond, s2)
       \<and> release_queue (interp s2) = (Some single, q3)
       \<and> queue q3 = None \<and> fifo q3 = [] \<and> node_count q3 = 0"
    by metis
  with h show ?thesis
    by (simp add: list_all_iff)
qed

text \<open>
  C10: \<open>reset_queue\<close> with an empty pointer returns the graph that was installed, leaves
  no graph installed and changes nothing else: \<open>thread_count\<close> and \<open>used_helper_threads\<close>
  keep their values, so \<open>get_used_helper_threads\<close> still reports the number computed
  for the graph that has been returned.
\<close>

theorem reset_queue_null_keeps_helper_threads:
  "reset_queue None s = Inr (queue (interp s), s\<lparr>interp := (interp s)\<lparr>queue := None\<rparr>\<rparr>)
   \<and> queue (interp (s\<lparr>interp := (interp s)\<lparr>queue := None\<rparr>\<rparr>)) = None
   \<and> get_used_helper_threads (interp (s\<lparr>interp := (interp s)\<lparr>queue := None\<rparr>\<rparr>))
      = get_used_helper_threads (interp s)
   \<and> get_thread_count (interp (s\<lparr>interp := (interp s)\<lparr>queue := None\<rparr>\<rparr>))
      = get_thread_count (interp s)"
  by (simp add: reset_queue_def get_used_helper_threads_def get_thread_count_def)

lemma reset_queue_null_after_install:
  "reset_queue None installed_state
     = Inr (Some diamond, installed_state\<lparr>interp := (interp installed_state)\<lparr>queue := None\<rparr>\<rparr>)
   \<and> get_used_helper_threads (interp (installed_state\<lparr>interp := (interp installed_state)\<lparr>queue := None\<rparr>\<rparr>))
     = thread_number diamond 2 - 1"
  by (simp add: reset_queue_def get_used_helper_threads_def)
     (simp add: example_defs thread_number_def get_total_node_count_def)

subsection \<open>\<open>run_next_item\<close> and the worker loop\<close>

lemma dec_ref_count_invoked: "dec_ref_count q s = Inr s' \<Longrightarrow> invoked s' = invoked s"
  by (auto simp: dec_ref_count_eq split: if_splits)

lemma update_rest_invoked: "update_rest xs s = Inr s' \<Longrightarrow> invoked s' = invoked s"
  by (induction xs arbitrary: s) (auto split: sum.splits dest: dec_ref_count_invoked)

lemma dec_ref_count_ptr_invoked:
  "dec_ref_count_ptr q None s = Inr (ptr, s') \<Longrightarrow> invoked s' = invoked s"
  by (auto simp: dec_ref_count_ptr_eq split: if_splits)

lemma update_first_invoked: "update_first xs s = Inr (ptr, s') \<Longrightarrow> invoked s' = invoked s"
proof (induction xs arbitrary: s)
  case Nil
  then show ?case by simp
next
  case (Cons x xs)
  then show ?case
    by (auto split: sum.splits option.splits dest!: dec_ref_count_ptr_invoked update_rest_invoked)
qed

lemma run_invoked:
  "run item index s = Inr (next, s') \<Longrightarrow> invoked s' = invoked s @ [(item, index)]"
  by (auto simp: run_def Let_def update_dependencies_def reset_activation_count_def
           split: if_splits sum.splits dest!: update_first_invoked)

text \<open>
  A chain that ends has run the item it started with and then each item that \<open>run\<close>
  returned, and \<open>consumed\<close> has gone up by their number.
\<close>

lemma run_chain_consumed_aux:
  assumes "run_chain item index c s = Some r"
  shows "\<forall>c' s1. r = Inr (c', s1) \<longrightarrow>
   (\<exists>chain. invoked s1 = invoked s @ map (\<lambda>p. (p, index)) (item # chain)
          \<and> c' = c + of_nat (length (item # chain)))"
  using assms
proof (induction rule: run_chain.raw_induct [rotated 1, consumes 1])
  case (1 run_chain item index consumed s r)
  show ?case
  proof (intro allI impI)
    fix c' s1
    assume req: "r = Inr (c', s1)"
    from req "1.hyps" obtain nxt s' where r: "run item index s = Inr (nxt, s')"
      by (auto split: sum.splits)
    note inv = run_invoked [OF r]
    show "\<exists>chain. invoked s1 = invoked s @ map (\<lambda>p. (p, index)) (item # chain)
          \<and> c' = consumed + of_nat (length (item # chain))"
    proof (cases nxt)
      case None
      with "1.hyps" r req inv show ?thesis
        by (intro exI [of _ "[]"]) auto
    next
      case (Some item')
      with "1.hyps" r have "run_chain item' index (consumed + 1) s' = Some r" by simp
      from "1.IH" [OF this] req obtain chain where
        "invoked s1 = invoked s' @ map (\<lambda>p. (p, index)) (item' # chain)"
        "c' = consumed + 1 + of_nat (length (item' # chain))" by blast
      with inv show ?thesis
        by (intro exI [of _ "item' # chain"]) (simp add: add.assoc)
    qed
  qed
qed

lemma run_chain_consumed:
  "run_chain item index c s = Some (Inr (c', s1)) \<Longrightarrow>
   \<exists>chain. invoked s1 = invoked s @ map (\<lambda>p. (p, index)) (item # chain)
          \<and> c' = c + of_nat (length (item # chain))"
  using run_chain_consumed_aux by blast

text \<open>
  C8: let the worker take \<open>item\<close> from the fifo and let its chain end after \<open>consumed\<close>
  items, in the state \<open>s1\<close> in which \<open>node_count\<close> is not below \<open>consumed\<close> (the assertion
  of \<open>run_next_item\<close>).  Then \<open>consumed\<close> is the number of items the chain ran (\<open>item\<close> and
  every item returned by \<open>run\<close>), \<open>run_next_item\<close> subtracts \<open>consumed\<close> from \<open>node_count\<close>
  once, and it answers \<open>no_remaining_items\<close> exactly when \<open>node_count\<close> was equal to
  \<open>consumed\<close> before the subtraction, \<open>remaining_items\<close> otherwise; \<open>run_item\<close> returns in
  the first case and goes round its loop again in the second.
\<close>

theorem run_next_item_accounting:
  assumes "fifo (interp s) = item # rest"
    and "run_chain item index 0 (s\<lparr>interp := (interp s)\<lparr>fifo := rest\<rparr>\<rparr>) = Some (Inr (consumed, s1))"
    and "consumed \<le> node_count (interp s1)"
  shows "\<exists>chain s2. invoked s1 = invoked s @ map (\<lambda>p. (p, index)) (item # chain)
       \<and> consumed = of_nat (length (item # chain))
       \<and> s2 = s1\<lparr>interp := (interp s1)\<lparr>node_count := node_count (interp s1) - consumed\<rparr>\<rparr>
       \<and> run_next_item index s =
           Some (Inr (if node_count (interp s1) = consumed then no_remaining_items
                      else remaining_items, s2))
       \<and> (node_count (interp s) \<noteq> 0 \<longrightarrow>
           run_item index s =
             (if node_count (interp s1) = consumed then Some (Inr s2) else run_item index s2))"
proof -
  from run_chain_consumed [OF assms(2)] obtain chain where
    c: "invoked s1 = invoked s @ map (\<lambda>p. (p, index)) (item # chain)"
       "consumed = of_nat (length (item # chain))"
    by auto
  let ?s2 = "s1\<lparr>interp := (interp s1)\<lparr>node_count := node_count (interp s1) - consumed\<rparr>\<rparr>"
  have n: "run_next_item index s =
           Some (Inr (if node_count (interp s1) = consumed then no_remaining_items
                      else remaining_items, ?s2))"
    using assms by (simp add: run_next_item_def Let_def)
  have "node_count (interp s) \<noteq> 0 \<Longrightarrow>
           run_item index s =
             (if node_count (interp s1) = consumed then Some (Inr ?s2) else run_item index ?s2)"
    by (subst run_item.simps) (simp add: n)
  with c n show ?thesis by blast
qed

theorem run_next_item_accounting_witness:
  "fifo (interp seeded_state) = 0 # []
   \<and> run_chain 0 0 0 (seeded_state\<lparr>interp := (interp seeded_state)\<lparr>fifo := []\<rparr>\<rparr>)
       = Some (Inr (2, \<lparr>heap = diamond_heap 0 1 0 1,
                        interp = diamond_interp (Some diamond) 1 [2] 4,
                        invoked = [(0, 0), (1, 0)]\<rparr>))
   \<and> (2 :: node_count_t) \<le> 4
   \<and> run_next_item 0 seeded_state
       = Some (Inr (remaining_items, \<lparr>heap = diamond_heap 0 1 0 1,
                                       interp = diamond_interp (Some diamond) 1 [2] 2,
                                       invoked = [(0, 0), (1, 0)]\<rparr>))"
proof -
  let ?s1 = "\<lparr>heap = diamond_heap 0 1 0 1, interp = diamond_interp (Some diamond) 1 [2] 4,
              invoked = [(0, 0), (1, 0)]\<rparr>"
  have f: "fifo (interp seeded_state) = 0 # []"
    by (simp add: example_defs)
  have c: "run_chain 0 0 0 (seeded_state\<lparr>interp := (interp seeded_state)\<lparr>fifo := []\<rparr>\<rparr>)
             = Some (Inr (2, ?s1))"
    by (simp add: run_chain.simps example_defs eval_defs fun_eq_iff)
  have l: "(2 :: node_count_t) \<le> node_count (interp ?s1)"
    by (simp add: example_defs)
  from run_next_item_accounting [OF f c l]
  have "run_next_item 0 seeded_state
       = Some (Inr (remaining_items, \<lparr>heap = diamond_heap 0 1 0 1,
                                       interp = diamond_interp (Some diamond) 1 [2] 2,
                                       invoked = [(0, 0), (1, 0)]\<rparr>))"
    by (auto simp: example_defs)
  with f c show ?thesis by simp
qed

section \<open>Properties of a tick on several threads\<close>

subsection \<open>Sums and lists\<close>

lemma sum_list_map_update:
  fixes f :: "'a \<Rightarrow> nat"
  shows "t < length xs \<Longrightarrow> sum_list (map f (xs[t := y])) + f (xs ! t) = sum_list (map f xs) + f y"
proof (induction xs arbitrary: t)
  case Nil
  then show ?case by simp
next
  case (Cons x xs)
  show ?case
  proof (cases t)
    case 0
    then show ?thesis by simp
  next
    case (Suc n)
    with Cons.prems have "n < length xs" by simp
    from Cons.IH [OF this] Suc show ?thesis by simp
  qed
qed

lemma sum_list_map_change:
  fixes f :: "'a \<Rightarrow> nat"
  shows "distinct xs \<Longrightarrow> x \<in> set xs \<Longrightarrow> (\<forall>u \<in> set xs. u \<noteq> x \<longrightarrow> f' u = f u) \<Longrightarrow>
   sum_list (map f' xs) + f x = sum_list (map f xs) + f' x"
proof (induction xs)
  case Nil
  then show ?case by simp
next
  case (Cons a xs)
  show ?case
  proof (cases "a = x")
    case True
    with Cons.prems have "map f' xs = map f xs" by (intro map_cong) auto
    then have "sum_list (map f' xs) = sum_list (map f xs)" by (rule arg_cong)
    with True show ?thesis by simp
  next
    case False
    with Cons.prems have "sum_list (map f' xs) + f x = sum_list (map f xs) + f' x"
      by (intro Cons.IH) auto
    moreover from False Cons.prems have "f' a = f a" by simp
    ultimately show ?thesis by simp
  qed
qed

lemma count_list_le_1_distinct: "(\<forall>v. count_list xs v \<le> 1) \<Longrightarrow> distinct xs"
proof (induction xs)
  case Nil
  then show ?case by simp
next
  case (Cons a xs)
  have "count_list xs a = 0"
    using Cons.prems [rule_format, of a] by simp
  then have "a \<notin> set xs" by (simp add: count_list_0_iff)
  moreover have "\<forall>v. count_list xs v \<le> 1"
  proof
    fix v show "count_list xs v \<le> 1"
      using Cons.prems [rule_format, of v] by (simp split: if_splits)
  qed
  ultimately show ?case using Cons.IH by simp
qed

lemma distinct_subset_length:
  "distinct xs \<Longrightarrow> set xs \<subseteq> set ys \<Longrightarrow> length xs \<le> length ys"
  by (metis card_length card_mono distinct_card finite_set le_trans)

lemma distinct_same_length_set:
  "distinct xs \<Longrightarrow> set xs \<subseteq> set ys \<Longrightarrow> distinct ys \<Longrightarrow> length xs = length ys \<Longrightarrow> set xs = set ys"
  by (metis card_subset_eq distinct_card finite_set)

lemma count_list_pos_iff: "0 < count_list xs v \<longleftrightarrow> v \<in> set xs"
  by (metis count_list_0_iff neq0_conv)

lemma count_list_drop_Suc:
  "i < length xs \<Longrightarrow> count_list (drop i xs) v = (if xs ! i = v then 1 else 0) + count_list (drop (Suc i) xs) v"
  by (simp flip: Cons_nth_drop_Suc)

lemma invocations_append:
  "base \<le> length (invoked m) \<Longrightarrow>
   invocations base (m\<lparr>invoked := invoked m @ [(item, x)]\<rparr>) v
     = invocations base m v + (if v = item then 1 else 0)"
  by (auto simp: invocations_def)

subsection \<open>Reading the invariant\<close>

lemma inv_wf: "tick_inv g base m ths \<Longrightarrow> wf_graph g (heap m)"
  by (simp add: tick_inv_def)

lemma inv_base: "tick_inv g base m ths \<Longrightarrow> base \<le> length (invoked m)"
  by (simp add: tick_inv_def)

lemma inv_ok: "tick_inv g base m ths \<Longrightarrow> p \<in> set ths \<Longrightarrow> ctl_ok (heap m) p"
  by (simp add: tick_inv_def)

lemma inv_once: "tick_inv g base m ths \<Longrightarrow> invocations base m v \<le> 1"
  by (simp add: tick_inv_def)

lemma inv_once_in:
  "tick_inv g base m ths \<Longrightarrow> invocations base m v = 1 \<Longrightarrow> v \<in> set (queue_items g)"
  by (simp add: tick_inv_def)

lemma inv_tok: "tick_inv g base m ths \<Longrightarrow> tokens m ths v + invocations base m v \<le> 1"
  by (simp add: tick_inv_def)

lemma inv_tok_in: "tick_inv g base m ths \<Longrightarrow> tokens m ths v = 1 \<Longrightarrow> v \<in> set (queue_items g)"
  by (simp add: tick_inv_def)

lemma inv_tok_count:
  "tick_inv g base m ths \<Longrightarrow> tokens m ths v = 1 \<Longrightarrow> activation_count (heap m v) = 0"
  by (simp add: tick_inv_def)

lemma inv_run: "tick_inv g base m ths \<Longrightarrow> running ths v \<le> invocations base m v"
  by (simp add: tick_inv_def)

lemma inv_run_count:
  "tick_inv g base m ths \<Longrightarrow> running ths v = 1 \<Longrightarrow> activation_count (heap m v) = 0"
  by (simp add: tick_inv_def)

lemma inv_fin:
  "tick_inv g base m ths \<Longrightarrow> invocations base m v = 1 \<Longrightarrow> running ths v = 0 \<Longrightarrow>
   activation_count (heap m v) = activation_limit (heap m v)"
  by (simp add: tick_inv_def)

lemma inv_nc:
  "tick_inv g base m ths \<Longrightarrow>
   unat (node_count (interp m)) + length (drop base (invoked m))
     = length (queue_items g) + unaccounted ths"
  by (simp add: tick_inv_def)

lemma inv_left:
  "tick_inv g base m ths \<Longrightarrow> t < length ths \<Longrightarrow> left_loop (ths ! t) \<Longrightarrow>
   node_count (interp m) = 0"
  by (simp add: tick_inv_def)

lemma inv_ready:
  "tick_inv g base m ths \<Longrightarrow> v \<in> set (queue_items g) \<Longrightarrow> invocations base m v = 0 \<Longrightarrow>
   activation_count (heap m v) = 0 \<Longrightarrow> tokens m ths v = 1"
  by (simp add: tick_inv_def)

lemma inv_pend0:
  "tick_inv g base m ths \<Longrightarrow> v \<in> set (queue_items g) \<Longrightarrow> invocations base m v = 0 \<Longrightarrow>
   unat (activation_count (heap m v)) = pending (queue_items g) base m ths v"
  by (simp add: tick_inv_def)

lemma inv_pend1:
  "tick_inv g base m ths \<Longrightarrow> v \<in> set (queue_items g) \<Longrightarrow> invocations base m v \<noteq> 0 \<Longrightarrow>
   pending (queue_items g) base m ths v = 0"
  by (simp add: tick_inv_def)

lemma wf_distinct: "wf_graph g h \<Longrightarrow> distinct (queue_items g)"
  and wf_succ: "wf_graph g h \<Longrightarrow> u \<in> set (queue_items g) \<Longrightarrow> q \<in> set (successors (h u)) \<Longrightarrow> q \<in> set (queue_items g)"
  unfolding wf_graph_def by blast+

lemma wf_graph_static:
  assumes "\<And>u. successors (h' u) = successors (h u)"
    and "\<And>u. activation_limit (h' u) = activation_limit (h u)"
  shows "wf_graph g h' = wf_graph g h"
  unfolding wf_graph_def in_degree_def using assms by simp

lemma ctl_rem_static:
  assumes "\<And>u. successors (h' u) = successors (h u)"
  shows "ctl_rem h' p = ctl_rem h p"
  using assms by (cases p) simp_all

lemma ctl_ok_static:
  assumes "\<And>u. successors (h' u) = successors (h u)"
  shows "ctl_ok h' p = ctl_ok h p"
  using assms by (cases p) simp_all

lemma inv_log:
  assumes "tick_inv g base m ths"
  shows "distinct (map fst (drop base (invoked m)))"
    and "set (map fst (drop base (invoked m))) \<subseteq> set (queue_items g)"
    and "length (drop base (invoked m)) \<le> length (queue_items g)"
proof -
  let ?L = "map fst (drop base (invoked m))"
  have le: "\<forall>v. count_list ?L v \<le> 1"
    using inv_once [OF assms] by (simp add: invocations_def)
  then show d: "distinct ?L" by (rule count_list_le_1_distinct)
  show s: "set ?L \<subseteq> set (queue_items g)"
  proof
    fix v assume "v \<in> set ?L"
    then have "0 < count_list ?L v" by (simp add: count_list_pos_iff)
    moreover from le have "count_list ?L v \<le> 1" by blast
    ultimately have "count_list ?L v = 1" by linarith
    then show "v \<in> set (queue_items g)"
      using inv_once_in [OF assms, of v] by (simp add: invocations_def)
  qed
  from distinct_subset_length [OF d s] show "length (drop base (invoked m)) \<le> length (queue_items g)"
    by simp
qed

lemma inv_unaccounted_le:
  assumes "tick_inv g base m ths"
  shows "unaccounted ths \<le> unat (node_count (interp m))"
  using inv_nc [OF assms] inv_log(3) [OF assms] by linarith

lemma nth_le_sum_list_map:
  fixes f :: "'a \<Rightarrow> nat"
  shows "t < length xs \<Longrightarrow> f (xs ! t) \<le> sum_list (map f xs)"
proof -
  assume "t < length xs"
  then have "f (xs ! t) \<in> set (map f xs)" by simp
  then show ?thesis by (simp add: member_le_sum_list)
qed

lemma ctl_k_le: "t < length ths \<Longrightarrow> ctl_k (ths ! t) \<le> unaccounted ths"
  unfolding unaccounted_def by (rule nth_le_sum_list_map)

lemma held_le_tokens: "t < length ths \<Longrightarrow> count_list (ctl_held (ths ! t)) v \<le> tokens m ths v"
  unfolding tokens_def
  using nth_le_sum_list_map [of t ths "\<lambda>p. count_list (ctl_held p) v"] by simp

lemma fifo_le_tokens: "count_list (fifo (interp m)) v \<le> tokens m ths v"
  unfolding tokens_def by simp

lemma active_le_running: "t < length ths \<Longrightarrow> count_list (ctl_active (ths ! t)) v \<le> running ths v"
  unfolding running_def by (rule nth_le_sum_list_map)

lemma rem_le_pending:
  "t < length ths \<Longrightarrow> count_list (ctl_rem (heap m) (ths ! t)) v \<le> pending items base m ths v"
  unfolding pending_def
  using nth_le_sum_list_map [of t ths "\<lambda>p. count_list (ctl_rem (heap m) p) v"] by simp

text \<open>The effect of a change of one thread on the sums.\<close>

lemma tokens_update:
  "t < length ths \<Longrightarrow>
   tokens m' (ths[t := p']) v + count_list (ctl_held (ths ! t)) v + count_list (fifo (interp m)) v
     = tokens m ths v + count_list (ctl_held p') v + count_list (fifo (interp m')) v"
  unfolding tokens_def
  using sum_list_map_update [of t ths "\<lambda>p. count_list (ctl_held p) v" p'] by simp

lemma running_update:
  "t < length ths \<Longrightarrow>
   running (ths[t := p']) v + count_list (ctl_active (ths ! t)) v
     = running ths v + count_list (ctl_active p') v"
  unfolding running_def by (rule sum_list_map_update)

lemma unaccounted_update:
  "t < length ths \<Longrightarrow> unaccounted (ths[t := p']) + ctl_k (ths ! t) = unaccounted ths + ctl_k p'"
  unfolding unaccounted_def by (rule sum_list_map_update)

lemma pending_update:
  assumes "t < length ths"
    and "\<And>u. successors (heap m' u) = successors (heap m u)"
    and "\<And>u. invocations base m' u = invocations base m u"
  shows "pending items base m' (ths[t := p']) v + count_list (ctl_rem (heap m) (ths ! t)) v
         = pending items base m ths v + count_list (ctl_rem (heap m) p') v"
proof -
  have "ctl_rem (heap m') = ctl_rem (heap m)"
    using assms(2) by (intro ext ctl_rem_static)
  moreover have "(\<lambda>u. if invocations base m' u = 0
                         then count_list (successors (heap m' u)) v else 0)
      = (\<lambda>u. if invocations base m u = 0 then count_list (successors (heap m u)) v else 0)"
    using assms(2,3) by (simp cong: if_cong)
  ultimately show ?thesis
    unfolding pending_def
    using sum_list_map_update [OF assms(1), of "\<lambda>p. count_list (ctl_rem (heap m) p) v" p']
    by simp
qed

subsection \<open>The invariant under a step\<close>

lemma tick_inv_step:
  assumes inv: "tick_inv g base m ths" and t: "t < length ths"
    and succs: "\<And>u. successors (heap m' u) = successors (heap m u)"
    and limits: "\<And>u. activation_limit (heap m' u) = activation_limit (heap m u)"
    and base: "base \<le> length (invoked m')"
    and ok: "ctl_ok (heap m) p'"
    and once: "\<And>v. invocations base m' v \<le> 1
                 \<and> (invocations base m' v = 1 \<longrightarrow> v \<in> set (queue_items g))"
    and tok: "\<And>v. tokens m' (ths[t := p']) v + invocations base m' v \<le> 1
                 \<and> (tokens m' (ths[t := p']) v = 1 \<longrightarrow>
                      v \<in> set (queue_items g) \<and> activation_count (heap m' v) = 0)"
    and run: "\<And>v. running (ths[t := p']) v \<le> invocations base m' v
                 \<and> (running (ths[t := p']) v = 1 \<longrightarrow> activation_count (heap m' v) = 0)"
    and fin: "\<And>v. invocations base m' v = 1 \<Longrightarrow> running (ths[t := p']) v = 0 \<Longrightarrow>
                  activation_count (heap m' v) = activation_limit (heap m' v)"
    and pend: "\<And>v. v \<in> set (queue_items g) \<Longrightarrow>
                  (if invocations base m' v = 0
                   then unat (activation_count (heap m' v))
                          = pending (queue_items g) base m' (ths[t := p']) v
                   else pending (queue_items g) base m' (ths[t := p']) v = 0)"
    and nc: "unat (node_count (interp m')) + length (drop base (invoked m'))
               = length (queue_items g) + unaccounted (ths[t := p'])"
    and ready: "\<And>v. v \<in> set (queue_items g) \<Longrightarrow> invocations base m' v = 0 \<Longrightarrow>
                  activation_count (heap m' v) = 0 \<Longrightarrow> tokens m' (ths[t := p']) v = 1"
    and zero: "node_count (interp m) = 0 \<Longrightarrow> node_count (interp m') = 0"
    and left: "left_loop p' \<Longrightarrow> node_count (interp m') = 0"
  shows "tick_inv g base m' (ths[t := p'])"
proof -
  have wf: "wf_graph g (heap m')"
    using inv_wf [OF inv] wf_graph_static [of "heap m'" "heap m" g] succs limits by simp
  have oks: "\<forall>p \<in> set (ths[t := p']). ctl_ok (heap m') p"
  proof
    fix p assume "p \<in> set (ths[t := p'])"
    then have "p = p' \<or> p \<in> set ths"
      using set_update_subset_insert [of ths t p'] by auto
    then have "ctl_ok (heap m) p" using ok inv_ok [OF inv] by auto
    then show "ctl_ok (heap m') p" using ctl_ok_static [of "heap m'" "heap m" p] succs by simp
  qed
  have a: "\<forall>t' < length (ths[t := p']). left_loop (ths[t := p'] ! t') \<longrightarrow> node_count (interp m') = 0"
  proof (intro allI impI)
    fix t' assume l: "t' < length (ths[t := p'])" and e: "left_loop (ths[t := p'] ! t')"
    show "node_count (interp m') = 0"
    proof (cases "t' = t")
      case True
      with e t have "left_loop p'" by simp
      then show ?thesis by (rule left)
    next
      case False
      with e l have "left_loop (ths ! t')" "t' < length ths" by simp_all
      then show ?thesis using inv_left [OF inv] zero by blast
    qed
  qed
  show ?thesis
    unfolding tick_inv_def
    using wf base oks once tok run fin pend nc ready a by blast
qed

text \<open>A step that changes nothing but the control point of a thread that holds the same.\<close>

lemma tick_inv_local:
  assumes inv: "tick_inv g base m ths" and t: "t < length ths"
    and held: "ctl_held p' = ctl_held (ths ! t)"
    and act: "ctl_active p' = ctl_active (ths ! t)"
    and rem: "ctl_rem (heap m) p' = ctl_rem (heap m) (ths ! t)"
    and k: "ctl_k p' = ctl_k (ths ! t)"
    and ok: "ctl_ok (heap m) p'"
    and left: "left_loop p' \<Longrightarrow> node_count (interp m) = 0"
  shows "tick_inv g base m (ths[t := p'])"
proof -
  have tk: "tokens m (ths[t := p']) v = tokens m ths v" for v
    using tokens_update [OF t, of m p' v m] held by simp
  have rn: "running (ths[t := p']) v = running ths v" for v
    using running_update [OF t, of p' v] act by simp
  have un: "unaccounted (ths[t := p']) = unaccounted ths"
    using unaccounted_update [OF t, of p'] k by simp
  have pe: "pending (queue_items g) base m (ths[t := p']) v = pending (queue_items g) base m ths v" for v
    using pending_update [OF t, of m m base "queue_items g" p' v] rem by simp
  show ?thesis
  proof (rule tick_inv_step [OF inv t])
    show "base \<le> length (invoked m)" by (rule inv_base [OF inv])
    show "ctl_ok (heap m) p'" by (rule ok)
    show "invocations base m v \<le> 1 \<and> (invocations base m v = 1 \<longrightarrow> v \<in> set (queue_items g))" for v
      using inv_once [OF inv] inv_once_in [OF inv] by blast
    show "tokens m (ths[t := p']) v + invocations base m v \<le> 1
          \<and> (tokens m (ths[t := p']) v = 1 \<longrightarrow> v \<in> set (queue_items g) \<and> activation_count (heap m v) = 0)" for v
      unfolding tk using inv_tok [OF inv] inv_tok_in [OF inv] inv_tok_count [OF inv] by blast
    show "running (ths[t := p']) v \<le> invocations base m v
          \<and> (running (ths[t := p']) v = 1 \<longrightarrow> activation_count (heap m v) = 0)" for v
      unfolding rn using inv_run [OF inv] inv_run_count [OF inv] by blast
    show "invocations base m v = 1 \<Longrightarrow> running (ths[t := p']) v = 0 \<Longrightarrow>
          activation_count (heap m v) = activation_limit (heap m v)" for v
      unfolding rn using inv_fin [OF inv] by blast
    show "if invocations base m v = 0
          then unat (activation_count (heap m v)) = pending (queue_items g) base m (ths[t := p']) v
          else pending (queue_items g) base m (ths[t := p']) v = 0"
      if "v \<in> set (queue_items g)" for v
      unfolding pe using inv_pend0 [OF inv that] inv_pend1 [OF inv that] by simp
    show "unat (node_count (interp m)) + length (drop base (invoked m))
            = length (queue_items g) + unaccounted (ths[t := p'])"
      unfolding un by (rule inv_nc [OF inv])
    show "tokens m (ths[t := p']) v = 1"
      if "v \<in> set (queue_items g)" "invocations base m v = 0" "activation_count (heap m v) = 0" for v
      unfolding tk using inv_ready [OF inv that] .
    show "left_loop p' \<Longrightarrow> node_count (interp m) = 0" by (rule left)
  qed simp_all
qed

text \<open>The same, when the store and the log stay and only the fifo changes.\<close>

lemma tick_inv_fifo:
  assumes inv: "tick_inv g base m ths" and t: "t < length ths"
    and held: "\<And>v. count_list (ctl_held p') v + count_list f v
                 = count_list (ctl_held (ths ! t)) v + count_list (fifo (interp m)) v"
    and act: "ctl_active p' = ctl_active (ths ! t)"
    and rem: "ctl_rem (heap m) p' = ctl_rem (heap m) (ths ! t)"
    and k: "ctl_k p' = ctl_k (ths ! t)"
    and ok: "ctl_ok (heap m) p'"
    and nleft: "\<not> left_loop p'"
  shows "tick_inv g base (m\<lparr>interp := (interp m)\<lparr>fifo := f\<rparr>\<rparr>) (ths[t := p'])"
proof -
  let ?m = "m\<lparr>interp := (interp m)\<lparr>fifo := f\<rparr>\<rparr>"
  have inv0 [simp]: "invocations base ?m = invocations base m"
    by (simp add: invocations_def fun_eq_iff)
  have tk: "tokens ?m (ths[t := p']) v = tokens m ths v" for v
    using tokens_update [OF t, of ?m p' v m] held [of v] by simp
  have rn: "running (ths[t := p']) v = running ths v" for v
    using running_update [OF t, of p' v] act by simp
  have un: "unaccounted (ths[t := p']) = unaccounted ths"
    using unaccounted_update [OF t, of p'] k by simp
  have pe: "pending (queue_items g) base ?m (ths[t := p']) v = pending (queue_items g) base m ths v" for v
    using pending_update [OF t, of ?m m base "queue_items g" p' v] rem by simp
  show ?thesis
  proof (rule tick_inv_step [OF inv t])
    show "base \<le> length (invoked ?m)" using inv_base [OF inv] by simp
    show "ctl_ok (heap m) p'" by (rule ok)
    show "invocations base ?m v \<le> 1 \<and> (invocations base ?m v = 1 \<longrightarrow> v \<in> set (queue_items g))" for v
      using inv_once [OF inv] inv_once_in [OF inv] by simp
    show "tokens ?m (ths[t := p']) v + invocations base ?m v \<le> 1
          \<and> (tokens ?m (ths[t := p']) v = 1 \<longrightarrow> v \<in> set (queue_items g) \<and> activation_count (heap ?m v) = 0)" for v
      unfolding tk using inv_tok [OF inv] inv_tok_in [OF inv] inv_tok_count [OF inv] by simp
    show "running (ths[t := p']) v \<le> invocations base ?m v
          \<and> (running (ths[t := p']) v = 1 \<longrightarrow> activation_count (heap ?m v) = 0)" for v
      unfolding rn using inv_run [OF inv] inv_run_count [OF inv] by simp
    show "invocations base ?m v = 1 \<Longrightarrow> running (ths[t := p']) v = 0 \<Longrightarrow>
          activation_count (heap ?m v) = activation_limit (heap ?m v)" for v
      unfolding rn using inv_fin [OF inv] by simp
    show "if invocations base ?m v = 0
          then unat (activation_count (heap ?m v)) = pending (queue_items g) base ?m (ths[t := p']) v
          else pending (queue_items g) base ?m (ths[t := p']) v = 0"
      if "v \<in> set (queue_items g)" for v
      unfolding pe using inv_pend0 [OF inv that] inv_pend1 [OF inv that] by simp
    show "unat (node_count (interp ?m)) + length (drop base (invoked ?m))
            = length (queue_items g) + unaccounted (ths[t := p'])"
      unfolding un using inv_nc [OF inv] by simp
    show "tokens ?m (ths[t := p']) v = 1"
      if "v \<in> set (queue_items g)" "invocations base ?m v = 0" "activation_count (heap ?m v) = 0" for v
      unfolding tk using inv_ready [OF inv that(1)] that(2,3) by simp
    show "left_loop p' \<Longrightarrow> node_count (interp ?m) = 0" using nleft by simp
  qed simp_all
qed

lemma le_1_cases: "(n::nat) \<le> 1 \<Longrightarrow> n = 0 \<or> n = 1"
  by linarith

lemma tick_inv_run:
  assumes inv: "tick_inv g base m ths" and t: "t < length ths"
    and p: "ths ! t = Run item c"
  shows "activation_count (heap m item) = 0"
    and "tick_inv g base (m\<lparr>invoked := invoked m @ [(item, x)]\<rparr>) (ths[t := Update1 item c 0])"
proof -
  let ?m = "m\<lparr>invoked := invoked m @ [(item, x)]\<rparr>"
  let ?ths = "ths[t := Update1 item c 0]"
  let ?N = "queue_items g"
  have "1 \<le> tokens m ths item"
    using held_le_tokens [OF t, of item m] p by simp
  with inv_tok [OF inv, of item] have tok1: "tokens m ths item = 1" and r0: "invocations base m item = 0"
    by linarith+
  from inv_tok_in [OF inv tok1] have inN: "item \<in> set ?N" .
  from inv_tok_count [OF inv tok1] show c0: "activation_count (heap m item) = 0" .
  have R: "invocations base ?m v = invocations base m v + (if v = item then 1 else 0)" for v
    using invocations_append [OF inv_base [OF inv]] by simp
  have tk: "tokens ?m ?ths v + (if v = item then 1 else 0) = tokens m ths v" for v
    using tokens_update [OF t, of ?m "Update1 item c 0" v m] p by (auto split: if_splits)
  have rn: "running ?ths v = running ths v + (if v = item then 1 else 0)" for v
    using running_update [OF t, of "Update1 item c 0" v] p by (auto split: if_splits)
  have un: "unaccounted ?ths = Suc (unaccounted ths)"
    using unaccounted_update [OF t, of "Update1 item c 0"] p by simp
  have pe: "pending ?N base ?m ?ths v = pending ?N base m ths v" for v
  proof -
    let ?f = "\<lambda>u. if invocations base m u = 0 then count_list (successors (heap m u)) v else 0"
    let ?f' = "\<lambda>u. if invocations base ?m u = 0 then count_list (successors (heap ?m u)) v else 0"
    have "\<forall>u \<in> set ?N. u \<noteq> item \<longrightarrow> ?f' u = ?f u"
      by (simp add: R)
    from sum_list_map_change [OF wf_distinct [OF inv_wf [OF inv]] inN this]
    have 1: "sum_list (map ?f' ?N) + count_list (successors (heap m item)) v = sum_list (map ?f ?N)"
      by (simp add: R r0)
    have 2: "sum_list (map (\<lambda>p. count_list (ctl_rem (heap m) p) v) ?ths)
             = sum_list (map (\<lambda>p. count_list (ctl_rem (heap m) p) v) ths)
               + count_list (successors (heap m item)) v"
      using sum_list_map_update [OF t, of "\<lambda>p. count_list (ctl_rem (heap m) p) v" "Update1 item c 0"] p
      by simp
    have "ctl_rem (heap ?m) = ctl_rem (heap m)" by simp
    then show ?thesis unfolding pending_def using 1 2 by simp
  qed
  show "tick_inv g base ?m ?ths"
  proof (rule tick_inv_step [OF inv t])
    show "base \<le> length (invoked ?m)" using inv_base [OF inv] by simp
    show "ctl_ok (heap m) (Update1 item c 0)" by simp
    show "invocations base ?m v \<le> 1 \<and> (invocations base ?m v = 1 \<longrightarrow> v \<in> set ?N)" for v
      using inv_once [OF inv, of v] inv_once_in [OF inv, of v] r0 inN by (simp add: R)
    show "tokens ?m ?ths v + invocations base ?m v \<le> 1
          \<and> (tokens ?m ?ths v = 1 \<longrightarrow> v \<in> set ?N \<and> activation_count (heap ?m v) = 0)" for v
      using tk [of v] inv_tok [OF inv, of v] inv_tok_in [OF inv, of v] inv_tok_count [OF inv, of v] tok1
      by (auto simp: R split: if_splits)
    show "running ?ths v \<le> invocations base ?m v
          \<and> (running ?ths v = 1 \<longrightarrow> activation_count (heap ?m v) = 0)" for v
      using inv_run [OF inv, of v] inv_run_count [OF inv, of v] c0 r0
      by (auto simp: R rn)
    show "invocations base ?m v = 1 \<Longrightarrow> running ?ths v = 0 \<Longrightarrow>
          activation_count (heap ?m v) = activation_limit (heap ?m v)" for v
      using inv_fin [OF inv, of v] by (auto simp: R rn split: if_splits)
    show "if invocations base ?m v = 0
          then unat (activation_count (heap ?m v)) = pending ?N base ?m ?ths v
          else pending ?N base ?m ?ths v = 0"
      if "v \<in> set ?N" for v
      unfolding pe
      using inv_pend0 [OF inv that] inv_pend1 [OF inv that] inv_pend0 [OF inv inN r0] c0
      by (auto simp: R)
    show "unat (node_count (interp ?m)) + length (drop base (invoked ?m))
            = length ?N + unaccounted ?ths"
      unfolding un using inv_nc [OF inv] inv_base [OF inv] by simp
    show "tokens ?m ?ths v = 1"
      if "v \<in> set ?N" "invocations base ?m v = 0" "activation_count (heap ?m v) = 0" for v
      using that tk [of v] inv_ready [OF inv that(1)] by (auto simp: R split: if_splits)
  qed simp_all
qed

lemma tick_inv_dec:
  assumes inv: "tick_inv g base m ths" and t: "t < length ths"
    and active: "ctl_active (ths ! t) = [this]"
    and rem: "ctl_rem (heap m) (ths ! t) = drop i (successors (heap m this))"
    and i: "i < length (successors (heap m this))"
    and q: "q = successors (heap m this) ! i"
    and active': "ctl_active p' = [this]"
    and rem': "ctl_rem (heap m) p' = drop (Suc i) (successors (heap m this))"
    and k': "ctl_k p' = ctl_k (ths ! t)"
    and ok': "ctl_ok (heap m) p'"
    and held': "\<And>v. count_list (ctl_held p') v
                  = count_list (ctl_held (ths ! t)) v
                    + (if v = q \<and> activation_count (heap m q) = 1 then 1 else 0)"
    and nleft: "\<not> left_loop p'"
  shows "activation_count (heap m q) \<noteq> 0"
    and "tick_inv g base (store_count q (activation_count (heap m q) - 1) m) (ths[t := p'])"
proof -
  let ?m = "store_count q (activation_count (heap m q) - 1) m"
  let ?ths = "ths[t := p']"
  let ?N = "queue_items g"
  have "1 \<le> running ths this"
    using active_le_running [OF t, of this] active by simp
  with inv_run [OF inv, of this] inv_once [OF inv, of this]
  have r1: "invocations base m this = 1" by linarith
  from inv_once_in [OF inv r1] have thisN: "this \<in> set ?N" .
  have "q \<in> set (successors (heap m this))" using i q by simp
  from wf_succ [OF inv_wf [OF inv] thisN this] have qN: "q \<in> set ?N" .
  have remq: "count_list (drop i (successors (heap m this))) v
         = (if v = q then 1 else 0) + count_list (drop (Suc i) (successors (heap m this))) v" for v
    using count_list_drop_Suc [OF i, of v] q by auto
  have "1 \<le> pending ?N base m ths q"
    using rem_le_pending [OF t, of m q ?N base] rem remq [of q] by simp
  with inv_pend1 [OF inv qN] have rq0: "invocations base m q = 0" by fastforce
  from inv_pend0 [OF inv qN rq0] \<open>1 \<le> pending ?N base m ths q\<close>
  have cq: "unat (activation_count (heap m q)) = pending ?N base m ths q"
    and cpos: "1 \<le> unat (activation_count (heap m q))" by simp_all
  from cpos show nz: "activation_count (heap m q) \<noteq> 0" by (auto simp: unat_eq_0)
  then have dec: "unat (activation_count (heap m q) - 1) = unat (activation_count (heap m q)) - 1"
    by (rule unat_minus_one)
  have one: "activation_count (heap m q) = 1 \<longleftrightarrow> unat (activation_count (heap m q)) = 1"
    by (simp add: word_unat_eq_iff)
  have tq0: "tokens m ths q = 0"
  proof (rule ccontr)
    assume "tokens m ths q \<noteq> 0"
    with inv_tok [OF inv, of q] have "tokens m ths q = 1" by linarith
    from inv_tok_count [OF inv this] nz show False by simp
  qed
  have inv0 [simp]: "invocations base ?m = invocations base m"
    by (simp add: invocations_def fun_eq_iff)
  have tk: "tokens ?m ?ths v
            = tokens m ths v + (if v = q \<and> activation_count (heap m q) = 1 then 1 else 0)" for v
    using tokens_update [OF t, of ?m p' v m] held' [of v] by simp
  have rn: "running ?ths v = running ths v" for v
    using running_update [OF t, of p' v] active active' by simp
  have un: "unaccounted ?ths = unaccounted ths"
    using unaccounted_update [OF t, of p'] k' by simp
  have pe: "pending ?N base ?m ?ths v + (if v = q then 1 else 0) = pending ?N base m ths v" for v
    using pending_update [OF t, of ?m m base ?N p' v] rem rem' remq [of v] by simp
  show "tick_inv g base ?m ?ths"
  proof (rule tick_inv_step [OF inv t])
    show "base \<le> length (invoked ?m)" using inv_base [OF inv] by simp
    show "ctl_ok (heap m) p'" by (rule ok')
    show "invocations base ?m v \<le> 1 \<and> (invocations base ?m v = 1 \<longrightarrow> v \<in> set ?N)" for v
      using inv_once [OF inv] inv_once_in [OF inv] by simp
    show "tokens ?m ?ths v + invocations base ?m v \<le> 1
          \<and> (tokens ?m ?ths v = 1 \<longrightarrow> v \<in> set ?N \<and> activation_count (heap ?m v) = 0)" for v
    proof (cases "v = q")
      case True
      then show ?thesis using tq0 rq0 qN by (simp add: tk)
    next
      case False
      then show ?thesis
        using inv_tok [OF inv, of v] inv_tok_in [OF inv, of v] inv_tok_count [OF inv, of v]
        by (simp add: tk)
    qed
    show "running ?ths v \<le> invocations base ?m v
          \<and> (running ?ths v = 1 \<longrightarrow> activation_count (heap ?m v) = 0)" for v
    proof (cases "v = q")
      case True
      then show ?thesis using inv_run [OF inv, of q] rq0 by (simp add: rn)
    next
      case False
      then show ?thesis
        using inv_run [OF inv, of v] inv_run_count [OF inv, of v] by (simp add: rn)
    qed
    show "invocations base ?m v = 1 \<Longrightarrow> running ?ths v = 0 \<Longrightarrow>
          activation_count (heap ?m v) = activation_limit (heap ?m v)" for v
      using inv_fin [OF inv, of v] rq0 by (cases "v = q") (simp_all add: rn)
    show "if invocations base ?m v = 0
          then unat (activation_count (heap ?m v)) = pending ?N base ?m ?ths v
          else pending ?N base ?m ?ths v = 0"
      if "v \<in> set ?N" for v
    proof (cases "v = q")
      case True
      then show ?thesis using pe [of q] cq dec rq0 by simp
    next
      case False
      then show ?thesis
        using pe [of v] inv_pend0 [OF inv that] inv_pend1 [OF inv that] by simp
    qed
    show "unat (node_count (interp ?m)) + length (drop base (invoked ?m))
            = length ?N + unaccounted ?ths"
      unfolding un using inv_nc [OF inv] by simp
    show "tokens ?m ?ths v = 1"
      if "v \<in> set ?N" "invocations base ?m v = 0" "activation_count (heap ?m v) = 0" for v
    proof (cases "v = q")
      case True
      with that(3) have "activation_count (heap m q) - 1 = 0" by simp
      then have "activation_count (heap m q) = 1" by simp
      with True tq0 tk [of q] show ?thesis by simp
    next
      case False
      with that inv_ready [OF inv that(1)] show ?thesis by (simp add: tk)
    qed
    show "left_loop p' \<Longrightarrow> node_count (interp ?m) = 0" using nleft by simp
  qed simp_all
qed

lemma tick_inv_reset_assert:
  assumes inv: "tick_inv g base m ths" and t: "t < length ths"
    and active: "ctl_active (ths ! t) = [this]"
  shows "activation_count (heap m this) = 0" and "invocations base m this = 1"
    and "running ths this = 1"
proof -
  have "1 \<le> running ths this"
    using active_le_running [OF t, of this] active by simp
  with inv_run [OF inv, of this] inv_once [OF inv, of this]
  show "invocations base m this = 1" and r: "running ths this = 1" by linarith+
  from inv_run_count [OF inv r] show "activation_count (heap m this) = 0" .
qed

lemma consumed_Suc:
  assumes inv: "tick_inv g base m ths" and t: "t < length ths"
    and k: "ctl_k (ths ! t) = Suc (unat (c :: node_count_t))"
  shows "unat (c + 1) = Suc (unat c)"
proof -
  have "Suc (unat c) \<le> unat (node_count (interp m))"
    using ctl_k_le [OF t] inv_unaccounted_le [OF inv] k by simp
  moreover have "unat (node_count (interp m)) < 2 ^ LENGTH(16)"
    by (rule unsigned_less)
  ultimately have "unat c + unat (1 :: node_count_t) < 2 ^ LENGTH(16)" by simp
  then have "unat (c + 1) = unat c + unat (1 :: node_count_t)"
    by (simp only: unat_add_lem)
  then show ?thesis by simp
qed

lemma tick_inv_reset_store:
  assumes inv: "tick_inv g base m ths" and t: "t < length ths"
    and p: "ths ! t = ResetStore this c next"
    and p': "p' = (case next of Some item \<Rightarrow> Run item (c + 1) | None \<Rightarrow> SubCount (c + 1))"
  shows "tick_inv g base (store_count this (activation_limit (heap m this)) m) (ths[t := p'])"
proof -
  let ?m = "store_count this (activation_limit (heap m this)) m"
  let ?ths = "ths[t := p']"
  let ?N = "queue_items g"
  have act: "ctl_active (ths ! t) = [this]" using p by simp
  note a = tick_inv_reset_assert [OF inv t act]
  have suc: "unat (c + 1) = Suc (unat c)"
    using consumed_Suc [OF inv t] p by simp
  have t0: "tokens m ths this = 0"
    using inv_tok [OF inv, of this] a(2) by simp
  have inv0 [simp]: "invocations base ?m = invocations base m"
    by (simp add: invocations_def fun_eq_iff)
  have tk: "tokens ?m ?ths v = tokens m ths v" for v
    using tokens_update [OF t, of ?m p' v m] p p' by (cases "next") simp_all
  have rn: "running ?ths v + (if v = this then 1 else 0) = running ths v" for v
    using running_update [OF t, of p' v] p p' by (cases "next") (auto split: if_splits)
  have un: "unaccounted ?ths = unaccounted ths"
    using unaccounted_update [OF t, of p'] p p' suc by (cases "next") simp_all
  have pe: "pending ?N base ?m ?ths v = pending ?N base m ths v" for v
    using pending_update [OF t, of ?m m base ?N p' v] p p' by (cases "next") simp_all
  show ?thesis
  proof (rule tick_inv_step [OF inv t])
    show "base \<le> length (invoked ?m)" using inv_base [OF inv] by simp
    show "ctl_ok (heap m) p'" using p' by (cases "next") simp_all
    show "invocations base ?m v \<le> 1 \<and> (invocations base ?m v = 1 \<longrightarrow> v \<in> set ?N)" for v
      using inv_once [OF inv] inv_once_in [OF inv] by simp
    show "tokens ?m ?ths v + invocations base ?m v \<le> 1
          \<and> (tokens ?m ?ths v = 1 \<longrightarrow> v \<in> set ?N \<and> activation_count (heap ?m v) = 0)" for v
      using inv_tok [OF inv, of v] inv_tok_in [OF inv, of v] inv_tok_count [OF inv, of v] t0
      by (cases "v = this") (simp_all add: tk)
    show "running ?ths v \<le> invocations base ?m v
          \<and> (running ?ths v = 1 \<longrightarrow> activation_count (heap ?m v) = 0)" for v
      using inv_run [OF inv, of v] inv_run_count [OF inv, of v] rn [of v] a(3)
      by (cases "v = this") auto
    show "invocations base ?m v = 1 \<Longrightarrow> running ?ths v = 0 \<Longrightarrow>
          activation_count (heap ?m v) = activation_limit (heap ?m v)" for v
      using inv_fin [OF inv, of v] rn [of v] by (cases "v = this") auto
    show "if invocations base ?m v = 0
          then unat (activation_count (heap ?m v)) = pending ?N base ?m ?ths v
          else pending ?N base ?m ?ths v = 0"
      if "v \<in> set ?N" for v
      unfolding pe using inv_pend0 [OF inv that] inv_pend1 [OF inv that] a(2)
      by (cases "v = this") simp_all
    show "unat (node_count (interp ?m)) + length (drop base (invoked ?m))
            = length ?N + unaccounted ?ths"
      unfolding un using inv_nc [OF inv] by simp
    show "tokens ?m ?ths v = 1"
      if "v \<in> set ?N" "invocations base ?m v = 0" "activation_count (heap ?m v) = 0" for v
      using that a(2) inv_ready [OF inv that(1)] by (cases "v = this") (simp_all add: tk)
    show "left_loop p' \<Longrightarrow> node_count (interp ?m) = 0" using p' by (cases "next") simp_all
  qed simp_all
qed

lemma tick_inv_sub_count:
  assumes inv: "tick_inv g base m ths" and t: "t < length ths"
    and p: "ths ! t = SubCount c"
    and p': "p' = (if node_count (interp m) = c then run_item_return t else Loop)"
  shows "c \<le> node_count (interp m)"
    and "tick_inv g base (m\<lparr>interp := (interp m)\<lparr>node_count := node_count (interp m) - c\<rparr>\<rparr>) (ths[t := p'])"
proof -
  let ?m = "m\<lparr>interp := (interp m)\<lparr>node_count := node_count (interp m) - c\<rparr>\<rparr>"
  let ?ths = "ths[t := p']"
  let ?N = "queue_items g"
  have kle: "unat c \<le> unaccounted ths"
    using ctl_k_le [OF t] p by simp
  with inv_unaccounted_le [OF inv] have "unat c \<le> unat (node_count (interp m))" by simp
  then show le: "c \<le> node_count (interp m)" by (simp add: word_le_nat_alt)
  then have sub: "unat (node_count (interp m) - c) = unat (node_count (interp m)) - unat c"
    by (rule unat_sub)
  have pk: "ctl_k p' = 0" "ctl_held p' = []" "ctl_active p' = []" "ctl_rem (heap m) p' = []"
    using p' by (simp_all add: run_item_return_def)
  have inv0 [simp]: "invocations base ?m = invocations base m"
    by (simp add: invocations_def fun_eq_iff)
  have tk: "tokens ?m ?ths v = tokens m ths v" for v
    using tokens_update [OF t, of ?m p' v m] p pk by simp
  have rn: "running ?ths v = running ths v" for v
    using running_update [OF t, of p' v] p pk by simp
  have un: "unaccounted ?ths + unat c = unaccounted ths"
    using unaccounted_update [OF t, of p'] p pk by simp
  have pe: "pending ?N base ?m ?ths v = pending ?N base m ths v" for v
    using pending_update [OF t, of ?m m base ?N p' v] p pk by simp
  show "tick_inv g base ?m ?ths"
  proof (rule tick_inv_step [OF inv t])
    show "base \<le> length (invoked ?m)" using inv_base [OF inv] by simp
    show "ctl_ok (heap m) p'" using p' by (simp add: run_item_return_def)
    show "invocations base ?m v \<le> 1 \<and> (invocations base ?m v = 1 \<longrightarrow> v \<in> set ?N)" for v
      using inv_once [OF inv] inv_once_in [OF inv] by simp
    show "tokens ?m ?ths v + invocations base ?m v \<le> 1
          \<and> (tokens ?m ?ths v = 1 \<longrightarrow> v \<in> set ?N \<and> activation_count (heap ?m v) = 0)" for v
      using inv_tok [OF inv, of v] inv_tok_in [OF inv, of v] inv_tok_count [OF inv, of v]
      by (simp add: tk)
    show "running ?ths v \<le> invocations base ?m v
          \<and> (running ?ths v = 1 \<longrightarrow> activation_count (heap ?m v) = 0)" for v
      using inv_run [OF inv, of v] inv_run_count [OF inv, of v] by (simp add: rn)
    show "invocations base ?m v = 1 \<Longrightarrow> running ?ths v = 0 \<Longrightarrow>
          activation_count (heap ?m v) = activation_limit (heap ?m v)" for v
      using inv_fin [OF inv, of v] by (simp add: rn)
    show "if invocations base ?m v = 0
          then unat (activation_count (heap ?m v)) = pending ?N base ?m ?ths v
          else pending ?N base ?m ?ths v = 0"
      if "v \<in> set ?N" for v
      unfolding pe using inv_pend0 [OF inv that] inv_pend1 [OF inv that] by simp
    show "unat (node_count (interp ?m)) + length (drop base (invoked ?m))
            = length ?N + unaccounted ?ths"
      using inv_nc [OF inv] un sub kle inv_unaccounted_le [OF inv] by simp
    show "node_count (interp m) = 0 \<Longrightarrow> node_count (interp ?m) = 0"
      using le by (simp add: word_le_nat_alt unat_eq_0)
    show "tokens ?m ?ths v = 1"
      if "v \<in> set ?N" "invocations base ?m v = 0" "activation_count (heap ?m v) = 0" for v
      unfolding tk using inv_ready [OF inv that(1)] that(2,3) by simp
    show "left_loop p' \<Longrightarrow> node_count (interp ?m) = 0"
      using p' by (simp split: if_splits)
  qed simp_all
qed

subsection \<open>Every step keeps the invariant\<close>

lemma ctl_active_le_k: "count_list (ctl_active p) v \<le> ctl_k p"
  by (cases p) simp_all

lemma running_le_unaccounted: "running ths v \<le> unaccounted ths"
  unfolding running_def unaccounted_def
  by (rule sum_list_mono) (simp add: ctl_active_le_k)

text \<open>When \<open>node_count\<close> is 0, the tick is over.\<close>

lemma tick_inv_done:
  assumes inv: "tick_inv g base m ths" and z: "node_count (interp m) = 0"
  shows "\<forall>v \<in> set (queue_items g). invocations base m v = 1"
    and "fifo (interp m) = []"
    and "\<forall>v \<in> set (queue_items g). activation_count (heap m v) = activation_limit (heap m v)"
proof -
  let ?L = "map fst (drop base (invoked m))"
  let ?N = "queue_items g"
  from inv_nc [OF inv] z inv_log(3) [OF inv]
  have len: "length ?L = length ?N" and un: "unaccounted ths = 0" by simp_all
  from distinct_same_length_set [OF inv_log(1) [OF inv] inv_log(2) [OF inv]
         wf_distinct [OF inv_wf [OF inv]] len]
  have set: "set ?L = set ?N" .
  show all: "\<forall>v \<in> set ?N. invocations base m v = 1"
  proof
    fix v assume "v \<in> set ?N"
    with set have "0 < count_list ?L v" by (simp add: count_list_pos_iff)
    with inv_once [OF inv, of v] show "invocations base m v = 1"
      by (simp add: invocations_def)
  qed
  show "fifo (interp m) = []"
  proof (rule ccontr)
    assume "fifo (interp m) \<noteq> []"
    then obtain v where v: "v \<in> set (fifo (interp m))" by (cases "fifo (interp m)") auto
    then have "0 < count_list (fifo (interp m)) v" by (simp add: count_list_pos_iff)
    with fifo_le_tokens [of m v ths] inv_tok [OF inv, of v]
    have t1: "tokens m ths v = 1" and r0: "invocations base m v = 0" by linarith+
    from inv_tok_in [OF inv t1] all r0 show False by simp
  qed
  show "\<forall>v \<in> set ?N. activation_count (heap m v) = activation_limit (heap m v)"
  proof
    fix v assume "v \<in> set ?N"
    with all have "invocations base m v = 1" by simp
    moreover have "running ths v = 0"
      using running_le_unaccounted [of ths v] un by simp
    ultimately show "activation_count (heap m v) = activation_limit (heap m v)"
      by (rule inv_fin [OF inv])
  qed
qed

lemma ctl_work_static:
  assumes "\<And>u. successors (h' u) = successors (h u)"
  shows "ctl_work h' p = ctl_work h p"
  using assms by (cases p) simp_all

lemma work_update:
  assumes "t < length ths" and "\<And>u. successors (heap m' u) = successors (heap m u)"
  shows "work m' (ths[t := p']) + ctl_work (heap m) (ths ! t) + length (fifo (interp m))
         = work m ths + ctl_work (heap m) p' + length (fifo (interp m'))"
proof -
  have "ctl_work (heap m') = ctl_work (heap m)"
    using assms(2) by (intro ext ctl_work_static)
  then show ?thesis
    unfolding work_def
    using sum_list_map_update [OF assms(1), of "ctl_work (heap m)" p'] by simp
qed

lemma tick_less_work:
  assumes "invoked m' = invoked m" and "work m' ths' < work m ths"
  shows "tick_less g base m' ths' m ths"
  using assms by (simp add: tick_less_def)

lemma tick_less_invoked:
  assumes "length (drop base (invoked m)) < length (drop base (invoked m'))"
    and "length (drop base (invoked m')) \<le> length (queue_items g)"
  shows "tick_less g base m' ths' m ths"
proof -
  from assms have "length (queue_items g) - length (drop base (invoked m'))
                   < length (queue_items g) - length (drop base (invoked m))"
    by linarith
  then show ?thesis by (simp add: tick_less_def del: length_drop)
qed

lemma wf_tick_order: "wf (less_than <*lex*> (less_than :: (nat \<times> nat) set))"
  by (intro wf_lex_prod wf_less_than)

lemma goto_tick_inv:
  assumes "tick_inv g base m' ((threads c)[t := p'])" and "step t c = goto t p' m' c"
    and "productive (threads c ! t) (mem c) \<Longrightarrow>
         tick_less g base m' ((threads c)[t := p']) (mem c) (threads c)"
  shows "step t c = None
         \<or> (\<exists>c'. step t c = Some (Inr c') \<and> tick_inv g base (mem c') (threads c')
                 \<and> length (threads c') = length (threads c)
                 \<and> (productive (threads c ! t) (mem c) \<longrightarrow>
                      tick_less g base (mem c') (threads c') (mem c) (threads c)))"
  using assms by (simp add: goto_def)

lemma step_tick_inv:
  assumes inv: "tick_inv g base (mem c) (threads c)"
  shows "step t c = None
         \<or> (\<exists>c'. step t c = Some (Inr c') \<and> tick_inv g base (mem c') (threads c')
                 \<and> length (threads c') = length (threads c)
                 \<and> (productive (threads c ! t) (mem c) \<longrightarrow>
                      tick_less g base (mem c') (threads c') (mem c) (threads c)))"
proof (cases "t < length (threads c)")
  case False
  then show ?thesis by (simp add: step_def)
next
  case t: True
  let ?m = "mem c"
  let ?ths = "threads c"
  have W: "tick_less g base m' (?ths[t := p']) ?m ?ths"
    if "invoked m' = invoked ?m" "\<And>u. successors (heap m' u) = successors (heap ?m u)"
       "ctl_work (heap ?m) p' + length (fifo (interp m'))
          < ctl_work (heap ?m) (?ths ! t) + length (fifo (interp ?m))" for m' p'
    using work_update [OF t that(2), of p'] that(3)
    by (intro tick_less_work that(1)) linarith
  show ?thesis
  proof (cases "?ths ! t")
    case Loop
    define p' where "p' = (if node_count (interp ?m) \<noteq> 0 then Dequeue else run_item_return t)"
    show ?thesis
    proof (rule goto_tick_inv)
      show "tick_inv g base ?m (?ths[t := p'])"
        by (intro tick_inv_local [OF inv t])
           (auto simp: Loop p'_def run_item_return_def split: if_splits)
      show "step t c = goto t p' ?m c"
        using t Loop by (simp add: step_def Let_def p'_def)
      show "tick_less g base ?m (?ths[t := p']) ?m ?ths" if "productive (?ths ! t) ?m"
        using that by (intro W) (simp_all add: Loop p'_def)
    qed
  next
    case Dequeue
    show ?thesis
    proof (cases "fifo (interp ?m)")
      case Nil
      show ?thesis
      proof (rule goto_tick_inv)
        show "tick_inv g base ?m (?ths[t := Loop])"
          by (intro tick_inv_local [OF inv t]) (auto simp: Dequeue)
        show "step t c = goto t Loop ?m c"
          using t Dequeue Nil by (simp add: step_def Let_def)
        show "tick_less g base ?m (?ths[t := Loop]) ?m ?ths" if "productive (?ths ! t) ?m"
          using that by (simp add: Dequeue Nil)
      qed
    next
      case (Cons item rest)
      show ?thesis
      proof (rule goto_tick_inv)
        show "tick_inv g base (?m\<lparr>interp := (interp ?m)\<lparr>fifo := rest\<rparr>\<rparr>) (?ths[t := Run item 0])"
          by (intro tick_inv_fifo [OF inv t]) (auto simp: Dequeue Cons)
        show "step t c = goto t (Run item 0) (?m\<lparr>interp := (interp ?m)\<lparr>fifo := rest\<rparr>\<rparr>) c"
          using t Dequeue Cons by (simp add: step_def Let_def)
        show "tick_less g base (?m\<lparr>interp := (interp ?m)\<lparr>fifo := rest\<rparr>\<rparr>) (?ths[t := Run item 0])
                ?m ?ths"
          by (intro W) (simp_all add: Dequeue Cons)
      qed
    qed
  next
    case (Run item consumed)
    note r = tick_inv_run(1) [OF inv t Run] tick_inv_run(2) [OF inv t Run, where x = "of_nat t"]
    show ?thesis
    proof (rule goto_tick_inv)
      show "tick_inv g base (?m\<lparr>invoked := invoked ?m @ [(item, of_nat t)]\<rparr>)
              (?ths[t := Update1 item consumed 0])"
        by (rule r(2))
      show "step t c = goto t (Update1 item consumed 0)
              (?m\<lparr>invoked := invoked ?m @ [(item, of_nat t)]\<rparr>) c"
        using t Run r(1) by (simp add: step_def Let_def)
      show "tick_less g base (?m\<lparr>invoked := invoked ?m @ [(item, of_nat t)]\<rparr>)
              (?ths[t := Update1 item consumed 0]) ?m ?ths"
      proof (rule tick_less_invoked)
        show "length (drop base (invoked ?m))
              < length (drop base (invoked (?m\<lparr>invoked := invoked ?m @ [(item, of_nat t)]\<rparr>)))"
          using inv_base [OF inv] by simp
        show "length (drop base (invoked (?m\<lparr>invoked := invoked ?m @ [(item, of_nat t)]\<rparr>)))
              \<le> length (queue_items g)"
          by (rule inv_log(3) [OF r(2)])
      qed
    qed
  next
    case (Update1 this consumed i)
    have ok: "i \<le> length (successors (heap ?m this))"
      using inv_ok [OF inv nth_mem [OF t]] Update1 by simp
    show ?thesis
    proof (cases "i = length (successors (heap ?m this))")
      case True
      show ?thesis
      proof (rule goto_tick_inv)
        show "tick_inv g base ?m (?ths[t := ResetAssert this consumed None])"
          by (intro tick_inv_local [OF inv t]) (auto simp: Update1 True)
        show "step t c = goto t (ResetAssert this consumed None) ?m c"
          using t Update1 True by (simp add: step_def Let_def)
        show "tick_less g base ?m (?ths[t := ResetAssert this consumed None]) ?m ?ths"
          by (intro W) (simp_all add: Update1)
      qed
    next
      case False
      with ok have i: "i < length (successors (heap ?m this))" by simp
      define q where "q = successors (heap ?m this) ! i"
      define p' where "p' = (if activation_count (heap ?m q) = 1
                             then Update2 this consumed (Suc i) q else Update1 this consumed (Suc i))"
      have d: "activation_count (heap ?m q) \<noteq> 0"
        and n: "tick_inv g base (store_count q (activation_count (heap ?m q) - 1) ?m) (?ths[t := p'])"
        using i by (intro tick_inv_dec [OF inv t, of this i q p']; simp add: Update1 q_def p'_def)+
      show ?thesis
      proof (rule goto_tick_inv)
        show "tick_inv g base (store_count q (activation_count (heap ?m q) - 1) ?m) (?ths[t := p'])"
          by (rule n)
        show "step t c = goto t p' (store_count q (activation_count (heap ?m q) - 1) ?m) c"
          using t Update1 False d
          by (simp add: step_def Let_def dec_ref_count_ptr_eq p'_def flip: q_def)
        show "tick_less g base (store_count q (activation_count (heap ?m q) - 1) ?m) (?ths[t := p'])
                ?m ?ths"
          using i by (intro W) (auto simp: Update1 p'_def)
      qed
    qed
  next
    case (Update2 this consumed i ptr)
    have ok: "i \<le> length (successors (heap ?m this))"
      using inv_ok [OF inv nth_mem [OF t]] Update2 by simp
    show ?thesis
    proof (cases "i = length (successors (heap ?m this))")
      case True
      show ?thesis
      proof (rule goto_tick_inv)
        show "tick_inv g base ?m (?ths[t := ResetAssert this consumed (Some ptr)])"
          by (intro tick_inv_local [OF inv t]) (auto simp: Update2 True)
        show "step t c = goto t (ResetAssert this consumed (Some ptr)) ?m c"
          using t Update2 True by (simp add: step_def Let_def)
        show "tick_less g base ?m (?ths[t := ResetAssert this consumed (Some ptr)]) ?m ?ths"
          by (intro W) (simp_all add: Update2)
      qed
    next
      case False
      with ok have i: "i < length (successors (heap ?m this))" by simp
      define q where "q = successors (heap ?m this) ! i"
      define p' where "p' = (if activation_count (heap ?m q) = 1
                             then Enqueue this consumed (Suc i) ptr q
                             else Update2 this consumed (Suc i) ptr)"
      have d: "activation_count (heap ?m q) \<noteq> 0"
        and n: "tick_inv g base (store_count q (activation_count (heap ?m q) - 1) ?m) (?ths[t := p'])"
        using i by (intro tick_inv_dec [OF inv t, of this i q p']; simp add: Update2 q_def p'_def)+
      show ?thesis
      proof (rule goto_tick_inv)
        show "tick_inv g base (store_count q (activation_count (heap ?m q) - 1) ?m) (?ths[t := p'])"
          by (rule n)
        show "step t c = goto t p' (store_count q (activation_count (heap ?m q) - 1) ?m) c"
          using t Update2 False d
          by (simp add: step_def Let_def word_greater_zero_iff p'_def flip: q_def)
        show "tick_less g base (store_count q (activation_count (heap ?m q) - 1) ?m) (?ths[t := p'])
                ?m ?ths"
          using i by (intro W) (auto simp: Update2 p'_def)
      qed
    qed
  next
    case (Enqueue this consumed i ptr q)
    have ok: "i \<le> length (successors (heap ?m this))"
      using inv_ok [OF inv nth_mem [OF t]] Enqueue by simp
    show ?thesis
    proof (rule goto_tick_inv)
      show "tick_inv g base (?m\<lparr>interp := (interp ?m)\<lparr>fifo := fifo (interp ?m) @ [q]\<rparr>\<rparr>)
            (?ths[t := Update2 this consumed i ptr])"
        using ok by (intro tick_inv_fifo [OF inv t]) (auto simp: Enqueue)
      show "step t c = goto t (Update2 this consumed i ptr)
              (?m\<lparr>interp := (interp ?m)\<lparr>fifo := fifo (interp ?m) @ [q]\<rparr>\<rparr>) c"
        using t Enqueue by (simp add: step_def Let_def mark_as_runnable_def)
      show "tick_less g base (?m\<lparr>interp := (interp ?m)\<lparr>fifo := fifo (interp ?m) @ [q]\<rparr>\<rparr>)
              (?ths[t := Update2 this consumed i ptr]) ?m ?ths"
        by (intro W) (simp_all add: Enqueue)
    qed
  next
    case (ResetAssert this consumed "next")
    have "ctl_active (?ths ! t) = [this]" by (simp add: ResetAssert)
    from tick_inv_reset_assert(1) [OF inv t this]
    have z: "activation_count (heap ?m this) = 0" .
    show ?thesis
    proof (rule goto_tick_inv)
      show "tick_inv g base ?m (?ths[t := ResetStore this consumed next])"
        by (intro tick_inv_local [OF inv t]) (auto simp: ResetAssert)
      show "step t c = goto t (ResetStore this consumed next) ?m c"
        using t ResetAssert z by (simp add: step_def Let_def)
      show "tick_less g base ?m (?ths[t := ResetStore this consumed next]) ?m ?ths"
        by (intro W) (simp_all add: ResetAssert)
    qed
  next
    case (ResetStore this consumed "next")
    show ?thesis
    proof (rule goto_tick_inv)
      show "tick_inv g base (store_count this (activation_limit (heap ?m this)) ?m)
              (?ths[t := case next of Some item \<Rightarrow> Run item (consumed + 1)
                             | None \<Rightarrow> SubCount (consumed + 1)])"
        by (rule tick_inv_reset_store [OF inv t ResetStore refl])
      show "step t c = goto t (case next of Some item \<Rightarrow> Run item (consumed + 1)
                             | None \<Rightarrow> SubCount (consumed + 1))
                         (store_count this (activation_limit (heap ?m this)) ?m) c"
        using t ResetStore by (simp add: step_def Let_def)
      show "tick_less g base (store_count this (activation_limit (heap ?m this)) ?m)
              (?ths[t := case next of Some item \<Rightarrow> Run item (consumed + 1)
                             | None \<Rightarrow> SubCount (consumed + 1)]) ?m ?ths"
        by (intro W) (simp_all add: ResetStore split: option.splits)
    qed
  next
    case (SubCount consumed)
    note s = tick_inv_sub_count [OF inv t SubCount refl]
    show ?thesis
    proof (rule goto_tick_inv)
      show "tick_inv g base
              (?m\<lparr>interp := (interp ?m)\<lparr>node_count := node_count (interp ?m) - consumed\<rparr>\<rparr>)
              (?ths[t := if node_count (interp ?m) = consumed then run_item_return t else Loop])"
        by (rule s(2))
      show "step t c = goto t (if node_count (interp ?m) = consumed then run_item_return t else Loop)
              (?m\<lparr>interp := (interp ?m)\<lparr>node_count := node_count (interp ?m) - consumed\<rparr>\<rparr>) c"
        using t SubCount s(1) by (simp add: step_def Let_def)
      show "tick_less g base
              (?m\<lparr>interp := (interp ?m)\<lparr>node_count := node_count (interp ?m) - consumed\<rparr>\<rparr>)
              (?ths[t := if node_count (interp ?m) = consumed then run_item_return t else Loop])
              ?m ?ths"
        by (intro W) (simp_all add: SubCount run_item_return_def)
    qed
  next
    case WaitEnd
    define p' where "p' = (if node_count (interp ?m) \<noteq> 0 then WaitEnd else AssertFifo)"
    have z: "node_count (interp ?m) = 0"
      using inv_left [OF inv t] WaitEnd by simp
    show ?thesis
    proof (rule goto_tick_inv)
      show "tick_inv g base ?m (?ths[t := p'])"
        using z by (intro tick_inv_local [OF inv t]) (auto simp: WaitEnd p'_def split: if_splits)
      show "step t c = goto t p' ?m c"
        using t WaitEnd by (simp add: step_def Let_def p'_def)
      show "tick_less g base ?m (?ths[t := p']) ?m ?ths" if "productive (?ths ! t) ?m"
        using that by (simp add: WaitEnd)
    qed
  next
    case AssertFifo
    have z: "node_count (interp ?m) = 0"
      using inv_left [OF inv t] AssertFifo by simp
    from tick_inv_done(2) [OF inv z] have e: "fifo (interp ?m) = []" .
    show ?thesis
    proof (rule goto_tick_inv)
      show "tick_inv g base ?m (?ths[t := Returned])"
        using z by (intro tick_inv_local [OF inv t]) (auto simp: AssertFifo)
      show "step t c = goto t Returned ?m c"
        using t AssertFifo e by (simp add: step_def Let_def)
      show "tick_less g base ?m (?ths[t := Returned]) ?m ?ths" if "productive (?ths ! t) ?m"
        using that by (simp add: AssertFifo)
    qed
  next
    case Returned
    then show ?thesis using t by (simp add: step_def)
  qed
qed

subsection \<open>The start of a tick and its interleavings\<close>

lemma count_list_distinct: "distinct xs \<Longrightarrow> count_list xs v = (if v \<in> set xs then 1 else 0)"
  by (induction xs) auto

lemma sum_list_replicate_0:
  fixes f :: "'a \<Rightarrow> nat"
  shows "f x = 0 \<Longrightarrow> sum_list (map f (replicate n x)) = 0"
  by (induction n) simp_all

lemma start_tick_inv:
  assumes wf: "wf_graph g (heap s)" and q: "quiescent g s" and ne: "total_node_count g \<noteq> 0"
  shows "start_tick helpers s
           = Some (Inr \<lparr>mem = s\<lparr>interp := (interp s)\<lparr>fifo := initially_runnable_items g,
                                                    node_count := total_node_count g\<rparr>\<rparr>,
                         threads = replicate (Suc helpers) Loop\<rparr>)"
    and "tick_inv g (length (invoked s))
           (s\<lparr>interp := (interp s)\<lparr>fifo := initially_runnable_items g,
                                    node_count := total_node_count g\<rparr>\<rparr>)
           (replicate (Suc helpers) Loop)"
proof -
  let ?m = "s\<lparr>interp := (interp s)\<lparr>fifo := initially_runnable_items g,
                                    node_count := total_node_count g\<rparr>\<rparr>"
  define ths where "ths = replicate (Suc helpers) Loop"
  let ?N = "queue_items g"
  let ?base = "length (invoked s)"
  from q have qs: "queue (interp s) = Some g" "node_count (interp s) = 0" "fifo (interp s) = []"
    and lim: "\<And>p. p \<in> set ?N \<Longrightarrow> activation_count (heap s p) = activation_limit (heap s p)"
    by (simp_all add: quiescent_def)
  have "init_tick (interp s) = Inr (True, interp ?m)"
    using qs ne by (simp add: init_tick_def get_total_node_count_def foldl_mark_as_runnable)
  then show "start_tick helpers s = Some (Inr \<lparr>mem = ?m, threads = replicate (Suc helpers) Loop\<rparr>)"
    by (simp add: start_tick_def)
  have all_loop: "p = Loop" if "p \<in> set ths" for p
    using that by (auto simp: ths_def)
  have R: "invocations ?base ?m v = 0" for v
    by (simp add: invocations_def)
  have tk: "tokens ?m ths v = (if v \<in> set (initially_runnable_items g) then 1 else 0)" for v
    using wf by (simp add: tokens_def wf_graph_def count_list_distinct sum_list_replicate_0 ths_def del: replicate.simps)
  have rn: "running ths v = 0" for v
    by (simp add: running_def sum_list_replicate_0 ths_def del: replicate.simps)
  have un: "unaccounted ths = 0"
    by (simp add: unaccounted_def sum_list_replicate_0 ths_def del: replicate.simps)
  have pe: "pending ?N ?base ?m ths v = in_degree (heap s) ?N v" for v
    by (simp add: pending_def in_degree_def R sum_list_replicate_0 ths_def del: replicate.simps)
  have "tick_inv g ?base ?m ths"
    unfolding tick_inv_def
  proof (intro conjI allI ballI impI)
    show "wf_graph g (heap ?m)" using wf by simp
    show "?base \<le> length (invoked ?m)" by simp
    show "ctl_ok (heap ?m) p" if "p \<in> set ths" for p using all_loop [OF that] by simp
    show "invocations ?base ?m v \<le> 1" for v by (simp add: R)
    show "v \<in> set ?N" if "invocations ?base ?m v = 1" for v using that by (simp add: R)
    show "tokens ?m ths v + invocations ?base ?m v \<le> 1" for v by (simp add: R tk)
    show "v \<in> set ?N" if "tokens ?m ths v = 1" for v
      using that wf by (auto simp: tk wf_graph_def split: if_splits)
    show "activation_count (heap ?m v) = 0" if "tokens ?m ths v = 1" for v
      using that wf lim [of v] by (auto simp: tk wf_graph_def split: if_splits)
    show "running ths v \<le> invocations ?base ?m v" for v by (simp add: rn)
    show "activation_count (heap ?m v) = 0" if "running ths v = 1" for v
      using that by (simp add: rn)
    show "activation_count (heap ?m v) = activation_limit (heap ?m v)"
      if "invocations ?base ?m v = 1 \<and> running ths v = 0" for v
      using that by (simp add: R)
    show "if invocations ?base ?m v = 0
          then unat (activation_count (heap ?m v)) = pending ?N ?base ?m ths v
          else pending ?N ?base ?m ths v = 0" if "v \<in> set ?N" for v
      using that wf lim [of v] by (simp add: R pe wf_graph_def)
    show "unat (node_count (interp ?m)) + length (drop ?base (invoked ?m))
            = length ?N + unaccounted ths"
      using wf by (simp add: un wf_graph_def)
    show "tokens ?m ths v = 1"
      if "v \<in> set ?N" "invocations ?base ?m v = 0 \<and> activation_count (heap ?m v) = 0" for v
      using that wf lim [of v] by (simp add: tk wf_graph_def)
    show "node_count (interp ?m) = 0" if "t < length ths" "left_loop (ths ! t)" for t
      using that all_loop [OF nth_mem [of t ths]] by simp
  qed
  then show "tick_inv g ?base ?m (replicate (Suc helpers) Loop)"
    by (simp only: ths_def)
qed


lemma run_schedule_tick_inv:
  "tick_inv g base (mem c) (threads c) \<Longrightarrow>
   \<exists>c'. run_schedule sched c = Inr c' \<and> tick_inv g base (mem c') (threads c')
        \<and> length (threads c') = length (threads c)"
proof (induction sched arbitrary: c)
  case Nil
  then show ?case by simp
next
  case (Cons t ts)
  from step_tick_inv [OF Cons.prems, of t] show ?case
  proof (elim disjE exE conjE)
    assume "step t c = None"
    then show ?thesis using Cons.IH [OF Cons.prems] by simp
  next
    fix c' assume s: "step t c = Some (Inr c')"
      and i: "tick_inv g base (mem c') (threads c')"
      and l: "length (threads c') = length (threads c)"
    from Cons.IH [OF i] l s show ?thesis by simp
  qed
qed

text \<open>No step touches the installed graph or the thread counts.\<close>

lemma goto_frame:
  "goto t p' m' c = Some (Inr c') \<Longrightarrow> mem c' = m'"
  by (auto simp: goto_def)

lemma step_queue:
  assumes "step t c = Some (Inr c')"
  shows "queue (interp (mem c')) = queue (interp (mem c))"
proof (cases "t < length (threads c)")
  case False
  with assms show ?thesis by (simp add: step_def)
next
  case True
  show ?thesis
  proof (cases "threads c ! t")
    case (Update1 this consumed i)
    with assms True show ?thesis
      by (auto simp: step_def Let_def dec_ref_count_ptr_def dest!: goto_frame
               split: if_splits option.splits sum.splits)
  next
    case (Update2 this consumed i ptr)
    with assms True show ?thesis
      by (auto simp: step_def Let_def dest!: goto_frame split: if_splits)
  qed (use assms True in \<open>auto simp: step_def Let_def mark_as_runnable_def dest!: goto_frame
                            split: if_splits list.splits option.splits\<close>)
qed

lemma run_schedule_queue:
  "run_schedule sched c = Inr c' \<Longrightarrow> queue (interp (mem c')) = queue (interp (mem c))"
proof (induction sched arbitrary: c)
  case Nil
  then show ?case by simp
next
  case (Cons t ts)
  then show ?case
    by (auto split: option.splits sum.splits dest: step_queue)
qed

subsection \<open>A tick on an acyclic graph can always be completed\<close>

lemma sum_list_all_0:
  fixes f :: "'a \<Rightarrow> nat"
  shows "(\<And>x. x \<in> set xs \<Longrightarrow> f x = 0) \<Longrightarrow> sum_list (map f xs) = 0"
  by (induction xs) simp_all

text \<open>
  While items are left to run on an acyclic graph and no thread is busy, the fifo holds
  an item.
\<close>

lemma idle_fifo_not_empty:
  assumes inv: "tick_inv g base m ths" and top: "topological g (heap m) rank"
    and nz: "node_count (interp m) \<noteq> 0"
    and idle: "\<And>p. p \<in> set ths \<Longrightarrow> p = Loop \<or> p = Dequeue"
  shows "fifo (interp m) \<noteq> []"
proof -
  let ?N = "queue_items g"
  let ?L = "map fst (drop base (invoked m))"
  have id: "ctl_k p = 0 \<and> ctl_held p = [] \<and> ctl_rem (heap m) p = []" if "p \<in> set ths" for p
    using idle [OF that] by auto
  have un: "unaccounted ths = 0"
    unfolding unaccounted_def by (intro sum_list_all_0) (simp add: id)
  have held: "sum_list (map (\<lambda>p. count_list (ctl_held p) v) ths) = 0" for v
    by (intro sum_list_all_0) (simp add: id)
  have rem: "sum_list (map (\<lambda>p. count_list (ctl_rem (heap m) p) v) ths) = 0" for v
    by (intro sum_list_all_0) (simp add: id)
  from nz have "0 < unat (node_count (interp m))" by (simp add: unat_gt_0)
  with inv_nc [OF inv] un have less: "length ?L < length ?N" by simp
  have "set ?L \<noteq> set ?N"
  proof
    assume "set ?L = set ?N"
    then have "card (set ?L) = card (set ?N)" by simp
    moreover have "card (set ?L) = length ?L"
      using inv_log(1) [OF inv] by (rule distinct_card)
    moreover have "card (set ?N) = length ?N"
      using wf_distinct [OF inv_wf [OF inv]] by (rule distinct_card)
    ultimately show False using less by simp
  qed
  with inv_log(2) [OF inv] obtain w where w: "w \<in> set ?N" "w \<notin> set ?L" by blast
  define U where "U = {v \<in> set ?N. invocations base m v = 0}"
  have "w \<in> U" using w by (simp add: U_def invocations_def count_list_0_iff)
  define n where "n = (LEAST n. n \<in> rank ` U)"
  from \<open>w \<in> U\<close> have "rank w \<in> rank ` U" by simp
  then have "n \<in> rank ` U" unfolding n_def by (rule LeastI)
  then obtain v where v: "v \<in> U" and rv: "rank v = n" by auto
  have min: "rank v \<le> rank u" if "u \<in> U" for u
  proof -
    from that have "rank u \<in> rank ` U" by simp
    then show ?thesis unfolding rv n_def by (rule Least_le)
  qed
  from v have vN: "v \<in> set ?N" and v0: "invocations base m v = 0" by (simp_all add: U_def)
  have "(if invocations base m u = 0 then count_list (successors (heap m u)) v else 0) = 0"
    if "u \<in> set ?N" for u
  proof (cases "invocations base m u = 0")
    case True
    with that have "u \<in> U" by (simp add: U_def)
    from min [OF this] have "\<not> rank u < rank v" by simp
    with top that have "v \<notin> set (successors (heap m u))" by (auto simp: topological_def)
    then show ?thesis by (simp add: count_list_0_iff)
  qed simp
  then have s1: "sum_list (map (\<lambda>u. if invocations base m u = 0
                then count_list (successors (heap m u)) v else 0) ?N) = 0"
    by (intro sum_list_all_0)
  have "pending ?N base m ths v = 0"
    unfolding pending_def by (simp only: s1 rem)
  with inv_pend0 [OF inv vN v0] have "unat (activation_count (heap m v)) = 0"
    by (simp only:)
  then have "activation_count (heap m v) = 0"
    by (simp only: unat_eq_0)
  from inv_ready [OF inv vN v0 this] have "tokens m ths v = 1" .
  then have one: "count_list (fifo (interp m)) v = 1"
    unfolding tokens_def by (simp only: held add_0_right)
  show ?thesis
  proof
    assume "fifo (interp m) = []"
    with one show False by simp
  qed
qed

lemma goto_Some: "goto t p m c \<noteq> None"
  by (simp add: goto_def)

lemma step_None:
  assumes "step t c = None" and "t < length (threads c)"
  shows "threads c ! t = Returned"
proof (cases "threads c ! t")
  case Dequeue
  with assms show ?thesis
    by (simp add: step_def Let_def goto_Some split: list.splits)
next
  case (Update1 this consumed i)
  with assms show ?thesis
    by (simp add: step_def Let_def goto_Some split: if_splits sum.splits prod.splits option.splits)
qed (use assms in \<open>simp_all add: step_def Let_def goto_Some split: if_splits\<close>)

lemma not_productive:
  assumes inv: "tick_inv g base m ths" and nz: "node_count (interp m) \<noteq> 0"
    and t: "t < length ths" and np: "\<not> productive (ths ! t) m"
  shows "ths ! t = Dequeue \<and> fifo (interp m) = []"
  using np nz inv_left [OF inv t] by (cases "ths ! t") auto

lemma tick_progress:
  assumes inv: "tick_inv g base (mem c) (threads c)"
    and top: "topological g (heap (mem c)) rank"
    and nz: "node_count (interp (mem c)) \<noteq> 0"
    and len: "0 < length (threads c)"
  shows "\<exists>t c'. step t c = Some (Inr c') \<and> tick_inv g base (mem c') (threads c')
            \<and> length (threads c') = length (threads c)
            \<and> tick_less g base (mem c') (threads c') (mem c) (threads c)"
proof -
  have "\<exists>t < length (threads c). productive (threads c ! t) (mem c)"
  proof (rule ccontr)
    assume "\<not> ?thesis"
    then have all: "\<And>t. t < length (threads c) \<Longrightarrow>
        threads c ! t = Dequeue \<and> fifo (interp (mem c)) = []"
      using not_productive [OF inv nz] by blast
    have "p = Loop \<or> p = Dequeue" if "p \<in> set (threads c)" for p
      using that all by (auto simp: in_set_conv_nth)
    from idle_fifo_not_empty [OF inv top nz this] all [OF len] show False by simp
  qed
  then obtain t where t: "t < length (threads c)" and p: "productive (threads c ! t) (mem c)"
    by blast
  have "step t c \<noteq> None"
  proof
    assume "step t c = None"
    from step_None [OF this t] p show False by simp
  qed
  with step_tick_inv [OF inv, of t] p show ?thesis by blast
qed

lemma step_successors:
  assumes "step t c = Some (Inr c')"
  shows "successors (heap (mem c') u) = successors (heap (mem c) u)"
proof (cases "t < length (threads c)")
  case False
  with assms show ?thesis by (simp add: step_def)
next
  case True
  show ?thesis
  proof (cases "threads c ! t")
    case (Update1 this consumed i)
    with assms True show ?thesis
      by (auto simp: step_def Let_def dec_ref_count_ptr_def dest!: goto_frame
               split: if_splits option.splits sum.splits)
  next
    case (Update2 this consumed i ptr)
    with assms True show ?thesis
      by (auto simp: step_def Let_def dest!: goto_frame split: if_splits)
  qed (use assms True in \<open>auto simp: step_def Let_def mark_as_runnable_def dest!: goto_frame
                            split: if_splits list.splits option.splits\<close>)
qed

lemma topological_static:
  assumes "\<And>u. successors (h' u) = successors (h u)"
  shows "topological g h' rank = topological g h rank"
  by (simp add: topological_def assms)

lemma run_schedule_successors:
  "run_schedule sched c = Inr c' \<Longrightarrow> successors (heap (mem c') u) = successors (heap (mem c) u)"
proof (induction sched arbitrary: c)
  case Nil
  then show ?case by simp
next
  case (Cons t ts)
  then show ?case
    by (auto split: option.splits sum.splits dest: step_successors)
qed

lemma run_schedule_append:
  "run_schedule (xs @ ys) c =
     (case run_schedule xs c of Inl e \<Rightarrow> Inl e | Inr c' \<Rightarrow> run_schedule ys c')"
  by (induction xs arbitrary: c) (auto split: option.splits sum.splits)

lemma wf_tick_less:
  "wf {(c' :: tick_state, c :: tick_state).
         tick_less g base (mem c') (threads c') (mem c) (threads c)}"
proof -
  have eq: "{(c' :: tick_state, c :: tick_state).
               tick_less g base (mem c') (threads c') (mem c) (threads c)}
        = inv_image (less_than <*lex*> less_than)
            (\<lambda>c. (length (queue_items g) - length (drop base (invoked (mem c))),
                  work (mem c) (threads c)))"
    by (auto simp: inv_image_def tick_less_def)
  show ?thesis
    unfolding eq by (rule wf_inv_image [OF wf_tick_order])
qed

lemma tick_reaches_zero:
  assumes "tick_inv g base (mem c) (threads c)" and "topological g (heap (mem c)) rank"
    and "0 < length (threads c)"
  shows "\<exists>sched c'. run_schedule sched c = Inr c' \<and> tick_inv g base (mem c') (threads c')
           \<and> length (threads c') = length (threads c) \<and> node_count (interp (mem c')) = 0"
  using assms
proof (induction c rule: wf_induct_rule [OF wf_tick_less [of g base]])
  case (1 c)
  show ?case
  proof (cases "node_count (interp (mem c)) = 0")
    case True
    with "1.prems" have "run_schedule [] c = Inr c \<and> tick_inv g base (mem c) (threads c)
           \<and> length (threads c) = length (threads c) \<and> node_count (interp (mem c)) = 0"
      by simp
    then show ?thesis by blast
  next
    case False
    from tick_progress [OF "1.prems"(1,2) False "1.prems"(3)]
    obtain t c1 where s: "step t c = Some (Inr c1)"
      and i: "tick_inv g base (mem c1) (threads c1)"
      and l: "length (threads c1) = length (threads c)"
      and d: "tick_less g base (mem c1) (threads c1) (mem c) (threads c)" by blast
    have top: "topological g (heap (mem c1)) rank"
      using "1.prems"(2) topological_static [of "heap (mem c1)" "heap (mem c)" g rank]
        step_successors [OF s] by simp
    from d have "(c1, c) \<in> {(c', c). tick_less g base (mem c') (threads c') (mem c) (threads c)}"
      by simp
    from "1.IH" [OF this i top] l "1.prems"(3)
    obtain sched c' where "run_schedule sched c1 = Inr c'" "tick_inv g base (mem c') (threads c')"
      "length (threads c') = length (threads c1)" "node_count (interp (mem c')) = 0" by auto
    with s l have "run_schedule (t # sched) c = Inr c' \<and> tick_inv g base (mem c') (threads c')
           \<and> length (threads c') = length (threads c) \<and> node_count (interp (mem c')) = 0"
      by simp
    then show ?thesis by blast
  qed
qed

lemma tick_inv_zero:
  assumes inv: "tick_inv g base m ths" and z: "node_count (interp m) = 0"
  shows "unaccounted ths = 0"
  using inv_nc [OF inv] z inv_log(3) [OF inv] by simp

lemma end_rank_bound:
  assumes inv: "tick_inv g base m ths" and z: "node_count (interp m) = 0"
    and t: "t < length ths"
  shows "end_rank (ths ! t) \<le> 4"
proof -
  from ctl_k_le [OF t] tick_inv_zero [OF inv z] have k: "ctl_k (ths ! t) = 0" by simp
  show ?thesis
  proof (cases "ths ! t")
    case (Run item consumed)
    have "1 \<le> tokens m ths item"
      using held_le_tokens [OF t, of item m] Run by simp
    with inv_tok [OF inv, of item] have t1: "tokens m ths item = 1"
      and r0: "invocations base m item = 0" by linarith+
    from inv_tok_in [OF inv t1] tick_inv_done(1) [OF inv z] r0 show ?thesis by simp
  qed (use k in simp_all)
qed

lemma end_step:
  assumes inv: "tick_inv g base (mem c) (threads c)" and z: "node_count (interp (mem c)) = 0"
    and len: "0 < length (threads c)" and nr: "threads c ! 0 \<noteq> Returned"
  shows "\<exists>c'. step 0 c = Some (Inr c') \<and> tick_inv g base (mem c') (threads c')
           \<and> length (threads c') = length (threads c) \<and> node_count (interp (mem c')) = 0
           \<and> end_rank (threads c' ! 0) < end_rank (threads c ! 0)"
proof -
  have "step 0 c \<noteq> None"
    using step_None [of 0 c] len nr by blast
  with step_tick_inv [OF inv, of 0] obtain c' where s: "step 0 c = Some (Inr c')"
    and i: "tick_inv g base (mem c') (threads c')"
    and l: "length (threads c') = length (threads c)" by blast
  note e = tick_inv_done(2) [OF inv z]
  note b = end_rank_bound [OF inv z len]
  from ctl_k_le [OF len] tick_inv_zero [OF inv z] have k: "ctl_k (threads c ! 0) = 0" by simp
  have "node_count (interp (mem c')) = 0 \<and> end_rank (threads c' ! 0) < end_rank (threads c ! 0)"
  proof (cases "threads c ! 0")
    case Loop
    with s len z show ?thesis
      by (auto simp: step_def goto_def Let_def run_item_return_def)
  next
    case Dequeue
    with s len z e show ?thesis
      by (auto simp: step_def goto_def Let_def)
  next
    case (SubCount consumed)
    with k have "consumed = 0" by (simp add: unat_eq_0)
    with SubCount s len z show ?thesis
      by (auto simp: step_def goto_def Let_def run_item_return_def)
  next
    case WaitEnd
    with s len z show ?thesis
      by (auto simp: step_def goto_def Let_def)
  next
    case AssertFifo
    with s len z e show ?thesis
      by (auto simp: step_def goto_def Let_def)
  next
    case Returned
    with nr show ?thesis by simp
  qed (use b in simp_all)
  with s i l show ?thesis by blast
qed

lemma master_returns:
  "tick_inv g base (mem c) (threads c) \<Longrightarrow> node_count (interp (mem c)) = 0 \<Longrightarrow>
   0 < length (threads c) \<Longrightarrow> end_rank (threads c ! 0) \<le> n \<Longrightarrow>
   \<exists>c'. run_schedule (replicate n 0) c = Inr c' \<and> threads c' ! 0 = Returned"
proof (induction n arbitrary: c)
  case 0
  then have "threads c ! 0 = Returned" by (cases "threads c ! 0") simp_all
  then show ?case by simp
next
  case (Suc n)
  show ?case
  proof (cases "threads c ! 0 = Returned")
    case True
    with Suc.prems(3) have "step 0 c = None" by (simp add: step_def)
    moreover from True have "end_rank (threads c ! 0) \<le> n" by simp
    ultimately show ?thesis using Suc.IH [OF Suc.prems(1,2,3)] by simp
  next
    case False
    from end_step [OF Suc.prems(1,2,3) False] obtain c1 where
      s: "step 0 c = Some (Inr c1)" and i: "tick_inv g base (mem c1) (threads c1)"
      and l: "length (threads c1) = length (threads c)" and z: "node_count (interp (mem c1)) = 0"
      and r: "end_rank (threads c1 ! 0) < end_rank (threads c ! 0)" by blast
    from r Suc.prems(4) have "end_rank (threads c1 ! 0) \<le> n" by simp
    from Suc.IH [OF i z _ this] l Suc.prems(3) s show ?thesis by simp
  qed
qed

lemma tick_completes:
  assumes inv: "tick_inv g base (mem c) (threads c)" and top: "topological g (heap (mem c)) rank"
    and len: "0 < length (threads c)"
  shows "\<exists>sched c'. run_schedule sched c = Inr c' \<and> threads c' ! 0 = Returned"
proof -
  from tick_reaches_zero [OF assms] obtain s1 c1 where
    r1: "run_schedule s1 c = Inr c1" and i: "tick_inv g base (mem c1) (threads c1)"
    and l: "length (threads c1) = length (threads c)" and z: "node_count (interp (mem c1)) = 0"
    by blast
  from l len have len1: "0 < length (threads c1)" by simp
  from master_returns [OF i z len1 end_rank_bound [OF i z len1]] obtain c' where
    r2: "run_schedule (replicate 4 0) c1 = Inr c'" and ret: "threads c' ! 0 = Returned" by blast
  from r1 r2 have "run_schedule (s1 @ replicate 4 0) c = Inr c'"
    by (simp add: run_schedule_append)
  with ret show ?thesis by blast
qed

text \<open>
  C1: let \<open>g\<close> be a well-formed graph, installed in an interpreter that is quiescent, with
  at least one node.  Then \<open>init_tick\<close> returns true, and in every interleaving of the
  master and any number of helper threads, however far it has got, no assertion has
  failed, no item has had its job invoked twice, and no item outside the graph has had
  its job invoked at all; and once \<open>tick_master\<close> has returned, every item of the graph
  has had its job invoked exactly once, and the interpreter is quiescent again, so that
  the same holds for the next tick.  When the graph is acyclic, every interleaving can
  be continued to one in which \<open>tick_master\<close> has returned.
\<close>

theorem every_node_runs_once:
  assumes "wf_graph g (heap s)" and "quiescent g s" and "total_node_count g \<noteq> 0"
  shows "\<exists>c0. start_tick helpers s = Some (Inr c0)
     \<and> (\<forall>sched. \<exists>c. run_schedule sched c0 = Inr c
           \<and> (\<forall>p. invocations (length (invoked s)) (mem c) p \<le> 1)
           \<and> (\<forall>p. p \<notin> set (queue_items g) \<longrightarrow> invocations (length (invoked s)) (mem c) p = 0)
           \<and> (threads c ! 0 = Returned \<longrightarrow>
                (\<forall>p \<in> set (queue_items g). invocations (length (invoked s)) (mem c) p = 1)
                \<and> wf_graph g (heap (mem c)) \<and> quiescent g (mem c))
           \<and> (topological g (heap s) rank \<longrightarrow>
                (\<exists>more c'. run_schedule more c = Inr c' \<and> threads c' ! 0 = Returned)))"
proof -
  let ?base = "length (invoked s)"
  let ?c0 = "\<lparr>mem = s\<lparr>interp := (interp s)\<lparr>fifo := initially_runnable_items g,
                                              node_count := total_node_count g\<rparr>\<rparr>,
              threads = replicate (Suc helpers) Loop\<rparr>"
  note st = start_tick_inv [OF assms, of helpers]
  have q0: "queue (interp (mem ?c0)) = Some g"
    using assms(2) by (simp add: quiescent_def)
  have "\<exists>c. run_schedule sched ?c0 = Inr c
           \<and> (\<forall>p. invocations ?base (mem c) p \<le> 1)
           \<and> (\<forall>p. p \<notin> set (queue_items g) \<longrightarrow> invocations ?base (mem c) p = 0)
           \<and> (threads c ! 0 = Returned \<longrightarrow>
                (\<forall>p \<in> set (queue_items g). invocations ?base (mem c) p = 1)
                \<and> wf_graph g (heap (mem c)) \<and> quiescent g (mem c))
           \<and> (topological g (heap s) rank \<longrightarrow>
                (\<exists>more c'. run_schedule more c = Inr c' \<and> threads c' ! 0 = Returned))" for sched
  proof -
    from run_schedule_tick_inv [of g ?base ?c0 sched] st(2)
    obtain c where r: "run_schedule sched ?c0 = Inr c"
      and inv: "tick_inv g ?base (mem c) (threads c)"
      and len: "length (threads c) = length (threads ?c0)" by auto
    have once: "invocations ?base (mem c) p \<le> 1" for p
      by (rule inv_once [OF inv])
    have out: "invocations ?base (mem c) p = 0" if "p \<notin> set (queue_items g)" for p
      using inv_once [OF inv, of p] inv_once_in [OF inv, of p] that by linarith
    have fin: "(\<forall>p \<in> set (queue_items g). invocations ?base (mem c) p = 1)
                \<and> wf_graph g (heap (mem c)) \<and> quiescent g (mem c)"
      if "threads c ! 0 = Returned"
    proof -
      from len have "0 < length (threads c)" by simp
      from inv_left [OF inv this] that have z: "node_count (interp (mem c)) = 0" by simp
      note d = tick_inv_done [OF inv z]
      from run_schedule_queue [OF r] q0 have "queue (interp (mem c)) = Some g" by simp
      with d z inv_wf [OF inv] show ?thesis by (simp add: quiescent_def)
    qed
    have live: "\<exists>more c'. run_schedule more c = Inr c' \<and> threads c' ! 0 = Returned"
      if "topological g (heap s) rank"
    proof -
      have "topological g (heap (mem c)) rank"
        using that topological_static [of "heap (mem c)" "heap s" g rank]
          run_schedule_successors [OF r] by simp
      moreover from len have "0 < length (threads c)" by simp
      ultimately show ?thesis by (rule tick_completes [OF inv])
    qed
    from r once out fin live show ?thesis by blast
  qed
  with st(1) show ?thesis by blast
qed

lemma diamond_schedule_result:
  "case run_schedule diamond_schedule \<lparr>mem = seeded_state, threads = [Loop, Loop]\<rparr> of
     Inl e \<Rightarrow> False
   | Inr c \<Rightarrow> threads c = [Returned, Loop]
             \<and> invoked (mem c) = [(0, 0), (2, 1), (1, 0), (3, 0)]"
  by (simp add: diamond_schedule_def step_def goto_def Let_def example_defs eval_defs
        run_item_return_def)

theorem every_node_runs_once_witness:
  "wf_graph diamond (heap installed_state)
   \<and> quiescent diamond installed_state
   \<and> total_node_count diamond \<noteq> 0
   \<and> start_tick 1 installed_state = Some (Inr \<lparr>mem = seeded_state, threads = [Loop, Loop]\<rparr>)
   \<and> (\<exists>c. run_schedule diamond_schedule \<lparr>mem = seeded_state, threads = [Loop, Loop]\<rparr> = Inr c
          \<and> threads c ! 0 = Returned
          \<and> list_all (\<lambda>p. invocations 0 (mem c) p = 1) (queue_items diamond)
          \<and> quiescent diamond (mem c))
   \<and> topological diamond (heap installed_state) (\<lambda>p. p)
   \<and> (\<exists>more c'. run_schedule more \<lparr>mem = seeded_state, threads = [Loop, Loop]\<rparr> = Inr c'
          \<and> threads c' ! 0 = Returned)"
proof -
  have wf: "wf_graph diamond (heap installed_state)"
    by (simp add: wf_graph_def in_degree_def example_defs)
  have q: "quiescent diamond installed_state"
    by (simp add: quiescent_def example_defs)
  have ne: "total_node_count diamond \<noteq> 0"
    by (simp add: example_defs)
  have st: "start_tick 1 installed_state
              = Some (Inr \<lparr>mem = seeded_state, threads = [Loop, Loop]\<rparr>)"
    by (simp add: start_tick_def init_tick_def get_total_node_count_def mark_as_runnable_def
          example_defs)
  have l: "length (invoked installed_state) = 0"
    by (simp add: example_defs)
  have top: "topological diamond (heap installed_state) (\<lambda>p. p)"
    by (simp add: topological_def example_defs)
  let ?c0 = "\<lparr>mem = seeded_state, threads = [Loop, Loop]\<rparr>"
  from every_node_runs_once [OF wf q ne, of 1 "\<lambda>p. p"]
  obtain c0 where st0: "start_tick 1 installed_state = Some (Inr c0)"
    and all: "\<And>sched. \<exists>c. run_schedule sched c0 = Inr c
           \<and> (\<forall>p. invocations (length (invoked installed_state)) (mem c) p \<le> 1)
           \<and> (\<forall>p. p \<notin> set (queue_items diamond) \<longrightarrow>
                 invocations (length (invoked installed_state)) (mem c) p = 0)
           \<and> (threads c ! 0 = Returned \<longrightarrow>
                (\<forall>p \<in> set (queue_items diamond).
                    invocations (length (invoked installed_state)) (mem c) p = 1)
                \<and> wf_graph diamond (heap (mem c)) \<and> quiescent diamond (mem c))
           \<and> (topological diamond (heap installed_state) (\<lambda>p. p) \<longrightarrow>
                (\<exists>more c'. run_schedule more c = Inr c' \<and> threads c' ! 0 = Returned))"
    by blast
  from st0 st have c0: "c0 = ?c0" by simp
  from all [of diamond_schedule]
  obtain c where r: "run_schedule diamond_schedule ?c0 = Inr c"
    and f: "threads c ! 0 = Returned \<longrightarrow>
              (\<forall>p \<in> set (queue_items diamond). invocations 0 (mem c) p = 1)
              \<and> wf_graph diamond (heap (mem c)) \<and> quiescent diamond (mem c)"
    unfolding c0 l by blast
  from diamond_schedule_result r have ret: "threads c ! 0 = Returned" by simp
  from all [of "[]"] top
  have live: "\<exists>more c'. run_schedule more ?c0 = Inr c' \<and> threads c' ! 0 = Returned"
    unfolding c0 by simp
  from f ret r wf q ne st top live show ?thesis by (auto simp: list_all_iff)
qed

section \<open>The sequential operations as runs of the master thread\<close>

text \<open>
  Whatever \<open>tick_master\<close> computes as a function is what thread 0 computes step by step when no
  other thread moves: the two readings of the source agree.
\<close>

lemma master_reaches_refl: "master_reaches c c"
  unfolding master_reaches_def by (rule exI [of _ 0]) simp

lemma master_reaches_trans:
  assumes "master_reaches c c1" and "master_reaches c1 c2"
  shows "master_reaches c c2"
proof -
  from assms obtain n k where "run_schedule (replicate n 0) c = Inr c1"
    "run_schedule (replicate k 0) c1 = Inr c2" by (auto simp: master_reaches_def)
  then have "run_schedule (replicate (n + k) 0) c = Inr c2"
    by (simp add: replicate_add run_schedule_append)
  then show ?thesis unfolding master_reaches_def by blast
qed

lemma master_reaches_step:
  assumes "step 0 c = Some (Inr c1)" and "master_reaches c1 c2"
  shows "master_reaches c c2"
proof -
  from assms(2) obtain k where "run_schedule (replicate k 0) c1 = Inr c2"
    by (auto simp: master_reaches_def)
  with assms(1) have "run_schedule (replicate (Suc k) 0) c = Inr c2" by simp
  then show ?thesis unfolding master_reaches_def by blast
qed

lemma step_at:
  assumes "0 < length ths"
  shows "step 0 (at_control p m ths) =
     (case p of
        Loop \<Rightarrow> if node_count (interp m) \<noteq> 0 then Some (Inr (at_control Dequeue m ths))
                else Some (Inr (at_control WaitEnd m ths))
      | Dequeue \<Rightarrow>
          (case fifo (interp m) of
             [] \<Rightarrow> Some (Inr (at_control Loop m ths))
           | item # rest \<Rightarrow>
               Some (Inr (at_control (Run item 0) (m\<lparr>interp := (interp m)\<lparr>fifo := rest\<rparr>\<rparr>) ths)))
      | Run item consumed \<Rightarrow>
          if activation_count (heap m item) \<noteq> 0 then Some (Inl AssertionFailed)
          else Some (Inr (at_control (Update1 item consumed 0)
                 (m\<lparr>invoked := invoked m @ [(item, 0)]\<rparr>) ths))
      | Update1 this consumed i \<Rightarrow>
          if i = length (successors (heap m this))
          then Some (Inr (at_control (ResetAssert this consumed None) m ths))
          else
            (case dec_ref_count_ptr (successors (heap m this) ! i) None m of
               Inl e \<Rightarrow> Some (Inl e)
             | Inr (ptr, m') \<Rightarrow>
                 (case ptr of
                    None \<Rightarrow> Some (Inr (at_control (Update1 this consumed (i + 1)) m' ths))
                  | Some q \<Rightarrow> Some (Inr (at_control (Update2 this consumed (i + 1) q) m' ths))))
      | Update2 this consumed i ptr \<Rightarrow>
          if i = length (successors (heap m this))
          then Some (Inr (at_control (ResetAssert this consumed (Some ptr)) m ths))
          else
            let q = successors (heap m this) ! i;
                current = activation_count (heap m q);
                m' = store_count q (current - 1) m
            in if \<not> current > 0 then Some (Inl AssertionFailed)
               else if current = 1
                 then Some (Inr (at_control (Enqueue this consumed (i + 1) ptr q) m' ths))
               else Some (Inr (at_control (Update2 this consumed (i + 1) ptr) m' ths))
      | Enqueue this consumed i ptr q \<Rightarrow>
          Some (Inr (at_control (Update2 this consumed i ptr)
                 (m\<lparr>interp := mark_as_runnable q (interp m)\<rparr>) ths))
      | ResetAssert this consumed next \<Rightarrow>
          if activation_count (heap m this) = 0
          then Some (Inr (at_control (ResetStore this consumed next) m ths))
          else Some (Inl AssertionFailed)
      | ResetStore this consumed next \<Rightarrow>
          Some (Inr (at_control (case next of Some item \<Rightarrow> Run item (consumed + 1)
                                            | None \<Rightarrow> SubCount (consumed + 1))
                 (store_count this (activation_limit (heap m this)) m) ths))
      | SubCount consumed \<Rightarrow>
          let remaining = node_count (interp m);
              m' = m\<lparr>interp := (interp m)\<lparr>node_count := remaining - consumed\<rparr>\<rparr>
          in if \<not> remaining \<ge> consumed then Some (Inl AssertionFailed)
             else if remaining = consumed then Some (Inr (at_control WaitEnd m' ths))
             else Some (Inr (at_control Loop m' ths))
      | WaitEnd \<Rightarrow>
          if node_count (interp m) \<noteq> 0 then Some (Inr (at_control WaitEnd m ths))
          else Some (Inr (at_control AssertFifo m ths))
      | AssertFifo \<Rightarrow>
          if fifo (interp m) = [] then Some (Inr (at_control Returned m ths))
          else Some (Inl AssertionFailed)
      | Returned \<Rightarrow> None)"
  using assms
  by (cases p)
     (auto simp: step_def at_control_def goto_def Let_def run_item_return_def
           split: list.splits sum.splits option.splits)

lemma dec_ref_count_successors:
  "dec_ref_count q m = Inr m' \<Longrightarrow> successors (heap m' u) = successors (heap m u)"
  by (auto simp: dec_ref_count_eq split: if_splits)

lemma dec_ref_count_ptr_successors:
  "dec_ref_count_ptr q None m = Inr (ptr, m') \<Longrightarrow> successors (heap m' u) = successors (heap m u)"
  by (auto simp: dec_ref_count_ptr_eq split: if_splits)

lemma drop_Cons_nth:
  assumes "drop i ys = x # xs"
  shows "i < length ys" and "ys ! i = x" and "drop (Suc i) ys = xs"
proof -
  show l: "i < length ys" using assms by (cases "i < length ys") simp_all
  from Cons_nth_drop_Suc [OF l] assms show "ys ! i = x" and "drop (Suc i) ys = xs" by simp_all
qed

lemma update_rest_steps:
  assumes len: "0 < length ths"
  shows "update_rest xs m = Inr m' \<Longrightarrow> drop i (successors (heap m this)) = xs \<Longrightarrow>
   i \<le> length (successors (heap m this)) \<Longrightarrow>
   master_reaches (at_control (Update2 this c i ptr) m ths)
     (at_control (Update2 this c (length (successors (heap m this))) ptr) m' ths)"
proof (induction xs arbitrary: i m)
  case Nil
  then have "i = length (successors (heap m this))" and "m' = m" by simp_all
  then show ?case by (simp add: master_reaches_refl)
next
  case (Cons x xs)
  note d = drop_Cons_nth [OF Cons.prems(2)]
  from Cons.prems(1) obtain m1 where d1: "dec_ref_count x m = Inr m1"
    and r: "update_rest xs m1 = Inr m'" by (auto split: sum.splits)
  from d1 have nz: "activation_count (heap m x) \<noteq> 0"
    and m1: "m1 = (store_count x (activation_count (heap m x) - 1) m)
                  \<lparr>interp := (interp m)\<lparr>fifo := fifo (interp m)
                       @ (if activation_count (heap m x) = 1 then [x] else [])\<rparr>\<rparr>"
    by (auto simp: dec_ref_count_eq split: if_splits)
  have s: "successors (heap m1 this) = successors (heap m this)"
    by (rule dec_ref_count_successors [OF d1])
  have "master_reaches (at_control (Update2 this c (Suc i) ptr) m1 ths)
     (at_control (Update2 this c (length (successors (heap m1 this))) ptr) m' ths)"
    using d by (intro Cons.IH [OF r]) (simp_all add: s)
  then have rest: "master_reaches (at_control (Update2 this c (Suc i) ptr) m1 ths)
     (at_control (Update2 this c (length (successors (heap m this))) ptr) m' ths)"
    by (simp only: s)
  show ?case
  proof (cases "activation_count (heap m x) = 1")
    case True
    let ?m0 = "store_count x (activation_count (heap m x) - 1) m"
    have 1: "step 0 (at_control (Update2 this c i ptr) m ths)
             = Some (Inr (at_control (Enqueue this c (Suc i) ptr x) ?m0 ths))"
      using d True by (simp add: step_at [OF len] Let_def)
    have 2: "step 0 (at_control (Enqueue this c (Suc i) ptr x) ?m0 ths)
             = Some (Inr (at_control (Update2 this c (Suc i) ptr) m1 ths))"
      using True by (simp add: step_at [OF len] m1 mark_as_runnable_def)
    from master_reaches_step [OF 1 master_reaches_step [OF 2 rest]] show ?thesis .
  next
    case False
    have "step 0 (at_control (Update2 this c i ptr) m ths)
             = Some (Inr (at_control (Update2 this c (Suc i) ptr) m1 ths))"
      using d False nz
      by (simp add: step_at [OF len] Let_def word_greater_zero_iff m1 store_count_def)
    from master_reaches_step [OF this rest] show ?thesis .
  qed
qed

lemma update_rest_successors:
  "update_rest xs m = Inr m' \<Longrightarrow> successors (heap m' u) = successors (heap m u)"
  by (induction xs arbitrary: m) (auto split: sum.splits dest: dec_ref_count_successors)

lemma update_first_steps:
  assumes len: "0 < length ths"
  shows "update_first xs m = Inr (next, m') \<Longrightarrow> drop i (successors (heap m this)) = xs \<Longrightarrow>
   i \<le> length (successors (heap m this)) \<Longrightarrow>
   master_reaches (at_control (Update1 this c i) m ths)
     (at_control (ResetAssert this c next) m' ths)"
proof (induction xs arbitrary: i m)
  case Nil
  then have i: "i = length (successors (heap m this))" and "m' = m" "next = None" by simp_all
  then have "step 0 (at_control (Update1 this c i) m ths)
              = Some (Inr (at_control (ResetAssert this c next) m' ths))"
    by (simp add: step_at [OF len])
  from master_reaches_step [OF this master_reaches_refl] show ?case .
next
  case (Cons x xs)
  note d = drop_Cons_nth [OF Cons.prems(2)]
  from Cons.prems(1) obtain ptr m1 where d1: "dec_ref_count_ptr x None m = Inr (ptr, m1)"
    by (auto split: sum.splits)
  have s: "successors (heap m1 this) = successors (heap m this)"
    by (rule dec_ref_count_ptr_successors [OF d1])
  show ?case
  proof (cases ptr)
    case None
    with Cons.prems(1) d1 have r: "update_first xs m1 = Inr (next, m')" by simp
    have rest: "master_reaches (at_control (Update1 this c (Suc i)) m1 ths)
                  (at_control (ResetAssert this c next) m' ths)"
      using d by (intro Cons.IH [OF r]) (simp_all add: s)
    have "step 0 (at_control (Update1 this c i) m ths)
             = Some (Inr (at_control (Update1 this c (Suc i)) m1 ths))"
      using d d1 None by (simp add: step_at [OF len])
    from master_reaches_step [OF this rest] show ?thesis .
  next
    case (Some p)
    with Cons.prems(1) d1 have r: "update_rest xs m1 = Inr m'" and n: "next = Some p"
      by (auto split: sum.splits)
    have "master_reaches (at_control (Update2 this c (Suc i) p) m1 ths)
     (at_control (Update2 this c (length (successors (heap m1 this))) p) m' ths)"
      using d by (intro update_rest_steps [OF len r]) (simp_all add: s)
    then have rest: "master_reaches (at_control (Update2 this c (Suc i) p) m1 ths)
     (at_control (Update2 this c (length (successors (heap m' this))) p) m' ths)"
      by (simp only: update_rest_successors [OF r])
    have 1: "step 0 (at_control (Update1 this c i) m ths)
             = Some (Inr (at_control (Update2 this c (Suc i) p) m1 ths))"
      using d d1 Some by (simp add: step_at [OF len])
    have 2: "step 0 (at_control (Update2 this c (length (successors (heap m' this))) p) m' ths)
             = Some (Inr (at_control (ResetAssert this c next) m' ths))"
      by (simp add: step_at [OF len] n)
    from master_reaches_step [OF 1 master_reaches_trans [OF rest
           master_reaches_step [OF 2 master_reaches_refl]]]
    show ?thesis .
  qed
qed

lemma run_steps:
  assumes len: "0 < length ths" and r: "run item 0 m = Inr (next, m')"
  shows "master_reaches (at_control (Run item c) m ths)
     (at_control (case next of Some n \<Rightarrow> Run n (c + 1) | None \<Rightarrow> SubCount (c + 1)) m' ths)"
proof -
  let ?s1 = "m\<lparr>invoked := invoked m @ [(item, 0)]\<rparr>"
  from r obtain s2 where z: "activation_count (heap m item) = 0"
    and u: "update_first (successors (heap ?s1 item)) ?s1 = Inr (next, s2)"
    and z2: "activation_count (heap s2 item) = 0"
    and m': "m' = store_count item (activation_limit (heap s2 item)) s2"
    by (auto simp: run_def Let_def update_dependencies_def reset_activation_count_def
             split: if_splits sum.splits)
  have 1: "step 0 (at_control (Run item c) m ths)
           = Some (Inr (at_control (Update1 item c 0) ?s1 ths))"
    using z by (simp add: step_at [OF len])
  have 2: "master_reaches (at_control (Update1 item c 0) ?s1 ths)
             (at_control (ResetAssert item c next) s2 ths)"
    by (intro update_first_steps [OF len u]) simp_all
  have 3: "step 0 (at_control (ResetAssert item c next) s2 ths)
           = Some (Inr (at_control (ResetStore item c next) s2 ths))"
    using z2 by (simp add: step_at [OF len])
  have 4: "step 0 (at_control (ResetStore item c next) s2 ths)
           = Some (Inr (at_control (case next of Some n \<Rightarrow> Run n (c + 1)
                                              | None \<Rightarrow> SubCount (c + 1)) m' ths))"
    by (simp add: step_at [OF len] m')
  from master_reaches_step [OF 1 master_reaches_trans [OF 2
         master_reaches_step [OF 3 master_reaches_step [OF 4 master_reaches_refl]]]]
  show ?thesis .
qed

lemma run_chain_steps_aux:
  assumes len: "0 < length ths"
  shows "run_chain item ix c m = Some r \<Longrightarrow>
    \<forall>c' m'. ix = 0 \<and> r = Inr (c', m') \<longrightarrow>
       master_reaches (at_control (Run item c) m ths) (at_control (SubCount c') m' ths)"
proof (induction rule: run_chain.raw_induct [rotated 1, consumes 1])
  case (1 run_chain' item ix c m r)
  show ?case
  proof (intro allI impI, elim conjE)
    fix c' m'
    assume ix: "ix = 0" and r: "r = Inr (c', m')"
    from 1(2) r obtain nxt m1 where run: "run item ix m = Inr (nxt, m1)"
      by (auto split: sum.splits)
    note st = run_steps [OF len run [unfolded ix], of c]
    show "master_reaches (at_control (Run item c) m ths) (at_control (SubCount c') m' ths)"
    proof (cases nxt)
      case None
      with 1(2) run r have "c' = c + 1" "m' = m1" by simp_all
      with st None show ?thesis by simp
    next
      case (Some n)
      with 1(2) run have "run_chain' n ix (c + 1) m1 = Some r" by simp
      from 1(1) [OF this] ix r
      have "master_reaches (at_control (Run n (c + 1)) m1 ths) (at_control (SubCount c') m' ths)"
        by simp
      with st Some show ?thesis by (auto intro: master_reaches_trans)
    qed
  qed
qed

lemma run_chain_steps:
  assumes "0 < length ths" and "run_chain item 0 c m = Some (Inr (c', m'))"
  shows "master_reaches (at_control (Run item c) m ths) (at_control (SubCount c') m' ths)"
  using run_chain_steps_aux [OF assms] by simp

lemma run_item_steps_aux:
  assumes len: "0 < length ths"
  shows "run_item ix m = Some r \<Longrightarrow>
    \<forall>m'. ix = 0 \<and> r = Inr m' \<longrightarrow>
       master_reaches (at_control Loop m ths) (at_control WaitEnd m' ths)"
proof (induction rule: run_item.raw_induct [rotated 1, consumes 1])
  case (1 run_item' ix m r)
  show ?case
  proof (intro allI impI, elim conjE)
    fix m'
    assume ix: "ix = 0" and r: "r = Inr m'"
    show "master_reaches (at_control Loop m ths) (at_control WaitEnd m' ths)"
    proof (cases "node_count (interp m) = 0")
      case True
      with 1(2) r have "m' = m" by simp
      with True have "step 0 (at_control Loop m ths) = Some (Inr (at_control WaitEnd m' ths))"
        by (simp add: step_at [OF len])
      from master_reaches_step [OF this master_reaches_refl] show ?thesis .
    next
      case False
      then have lp: "step 0 (at_control Loop m ths) = Some (Inr (at_control Dequeue m ths))"
        by (simp add: step_at [OF len])
      from 1(2) False r obtain st s' where n: "run_next_item ix m = Some (Inr (st, s'))"
        and k: "if st = no_remaining_items then m' = s' else run_item' ix s' = Some r"
        by (auto split: option.splits sum.splits if_splits)
      have "master_reaches (at_control Dequeue m ths) (at_control WaitEnd m' ths)"
      proof (cases "fifo (interp m)")
        case Nil
        with n have "st = fifo_empty" "s' = m" by (simp_all add: run_next_item_def)
        with k have "run_item' ix m = Some r" by simp
        from 1(1) [OF this] ix r
        have rest: "master_reaches (at_control Loop m ths) (at_control WaitEnd m' ths)" by simp
        from Nil have "step 0 (at_control Dequeue m ths) = Some (Inr (at_control Loop m ths))"
          by (simp add: step_at [OF len])
        from master_reaches_step [OF this rest] show ?thesis .
      next
        case (Cons item rest)
        let ?m0 = "m\<lparr>interp := (interp m)\<lparr>fifo := rest\<rparr>\<rparr>"
        from n Cons obtain consumed s1 where
          ch: "run_chain item ix 0 ?m0 = Some (Inr (consumed, s1))"
          by (auto simp: run_next_item_def split: option.splits sum.splits)
        let ?s2 = "s1\<lparr>interp := (interp s1)\<lparr>node_count := node_count (interp s1) - consumed\<rparr>\<rparr>"
        from n Cons ch have ge: "node_count (interp s1) \<ge> consumed" and s': "s' = ?s2"
          and st: "st = no_remaining_items \<longleftrightarrow> node_count (interp s1) = consumed"
          by (auto simp: run_next_item_def Let_def split: if_splits)
        from Cons have dq: "step 0 (at_control Dequeue m ths)
                           = Some (Inr (at_control (Run item 0) ?m0 ths))"
          by (simp add: step_at [OF len])
        note rc = run_chain_steps [OF len ch [unfolded ix]]
        have "master_reaches (at_control (SubCount consumed) s1 ths) (at_control WaitEnd m' ths)"
        proof (cases "node_count (interp s1) = consumed")
          case True
          with st k s' have "m' = ?s2" by simp
          with True have "step 0 (at_control (SubCount consumed) s1 ths)
                           = Some (Inr (at_control WaitEnd m' ths))"
            by (simp add: step_at [OF len] Let_def)
          from master_reaches_step [OF this master_reaches_refl] show ?thesis .
        next
          case False
          with st k s' have "run_item' ix ?s2 = Some r" by simp
          from 1(1) [OF this] ix r
          have rest: "master_reaches (at_control Loop ?s2 ths) (at_control WaitEnd m' ths)"
            by simp
          from False ge have "step 0 (at_control (SubCount consumed) s1 ths)
                           = Some (Inr (at_control Loop ?s2 ths))"
            by (simp add: step_at [OF len] Let_def)
          from master_reaches_step [OF this rest] show ?thesis .
        qed
        from master_reaches_step [OF dq master_reaches_trans [OF rc this]] show ?thesis .
      qed
      from master_reaches_step [OF lp this] show ?thesis .
    qed
  qed
qed

lemma run_item_steps:
  assumes "0 < length ths" and "run_item 0 m = Some (Inr m')"
  shows "master_reaches (at_control Loop m ths) (at_control WaitEnd m' ths)"
  using run_item_steps_aux [OF assms] by simp

lemma wait_for_end_Some:
  "wait_for_end s = Some s' \<Longrightarrow> node_count (interp s) = 0 \<and> s' = s"
proof (induction rule: wait_for_end.raw_induct [rotated 1, consumes 1])
  case (1 wait_for_end' s y)
  then show ?case by (cases "node_count (interp s) = 0") auto
qed

lemma tick_master_steps:
  assumes len: "0 < length ths" and t: "tick_master m = Some (Inr m')"
  shows "master_reaches (at_control Loop m ths) (at_control Returned m' ths)"
proof -
  from t obtain s1 s2 where r: "run_item 0 m = Some (Inr s1)"
    and w: "wait_for_end s1 = Some s2" and f: "fifo (interp s2) = []" and m': "m' = s2"
    by (auto simp: tick_master_def run_item_master_def split: option.splits sum.splits if_splits)
  from wait_for_end_Some [OF w] have z: "node_count (interp s1) = 0" and e: "s2 = s1" by simp_all
  have 1: "step 0 (at_control WaitEnd s1 ths) = Some (Inr (at_control AssertFifo s1 ths))"
    using z by (simp add: step_at [OF len])
  have 2: "step 0 (at_control AssertFifo s1 ths) = Some (Inr (at_control Returned m' ths))"
    using f e m' by (simp add: step_at [OF len])
  from master_reaches_trans [OF run_item_steps [OF len r]
         master_reaches_step [OF 1 master_reaches_step [OF 2 master_reaches_refl]]]
  show ?thesis .
qed

end
